theory Spec2Isabelle
  imports Main
begin

section \<open>Marks, cells and the win combinations\<close>

text \<open>
  The program stores a board as a Python list of nine entries, each \<open>None\<close> or a mark string
  (\<open>'X'\<close> or \<open>'O'\<close>). A cell is therefore a \<open>string option\<close>. Reading a list past its end
  raises \<open>IndexError\<close> in Python; the model makes that a value.
\<close>

datatype error = IndexError

type_synonym cell = "string option"

type_synonym combo = "nat \<times> nat \<times> nat"

definition PLAYER_X :: string where
  "PLAYER_X = ''X''"

definition PLAYER_O :: string where
  "PLAYER_O = ''O''"

definition WIN_COMBINATIONS :: "combo list" where
  "WIN_COMBINATIONS =
     [(0, 1, 2), (3, 4, 5), (6, 7, 8),
      (0, 3, 6), (1, 4, 7), (2, 5, 8),
      (0, 4, 8), (2, 4, 6)]"

definition getitem :: "'a list \<Rightarrow> nat \<Rightarrow> error + 'a" where
  "getitem xs i = (if i < length xs then Inr (xs ! i) else Inl IndexError)"

text \<open>Python truthiness of a cell: \<open>None\<close> and the empty string are false.\<close>

definition truthy :: "cell \<Rightarrow> bool" where
  "truthy c = (case c of None \<Rightarrow> False | Some s \<Rightarrow> s \<noteq> [])"

section \<open>Board\<close>

record board =
  cells :: "cell list"
  anim :: "nat \<rightharpoonup> int"
  winning_combo :: "combo option"
  win_anim_start :: "int option"

definition Board_init :: board where
  "Board_init = \<lparr>cells = replicate 9 None, anim = Map.empty,
                  winning_combo = None, win_anim_start = None\<rparr>"

definition reset :: "board \<Rightarrow> board" where
  "reset b = b\<lparr>cells := replicate 9 None, anim := Map.empty,
               winning_combo := None, win_anim_start := None\<rparr>"

text \<open>
  \<open>Board.place\<close>. The first argument is the value \<open>pygame.time.get_ticks()\<close> returns, which
  the method stores as the start of the cell's animation. The result is the returned flag
  and the board after the call.
\<close>

definition place :: "int \<Rightarrow> int \<Rightarrow> string \<Rightarrow> board \<Rightarrow> error + (bool \<times> board)" where
  "place ticks idx mark b =
     (if 0 \<le> idx \<and> idx < 9 then
        (case getitem (cells b) (nat idx) of
           Inl e \<Rightarrow> Inl e
         | Inr c \<Rightarrow>
             if c = None then
               Inr (True, b\<lparr>cells := (cells b)[nat idx := Some mark],
                             anim := (anim b)(nat idx \<mapsto> ticks)\<rparr>)
             else Inr (False, b))
      else Inr (False, b))"

text \<open>
  The loop of \<open>Board.winner\<close> over the win combinations. The test
  \<open>cells[a] and cells[a] == cells[b] == cells[c]\<close> reads \<open>cells[b]\<close> only when \<open>cells[a]\<close> is
  true, and \<open>cells[c]\<close> only when the first comparison holds.
\<close>

fun winner_loop :: "cell list \<Rightarrow> combo list \<Rightarrow> error + (cell \<times> combo option) option" where
  "winner_loop cs [] = Inr None"
| "winner_loop cs ((a, b, c) # rest) =
     (case getitem cs a of
        Inl e \<Rightarrow> Inl e
      | Inr ca \<Rightarrow>
          if truthy ca then
            (case getitem cs b of
               Inl e \<Rightarrow> Inl e
             | Inr cb \<Rightarrow>
                 if ca = cb then
                   (case getitem cs c of
                      Inl e \<Rightarrow> Inl e
                    | Inr cc \<Rightarrow>
                        if cb = cc then Inr (Some (ca, Some (a, b, c)))
                        else winner_loop cs rest)
                 else winner_loop cs rest)
          else winner_loop cs rest)"

definition winner :: "board \<Rightarrow> error + (cell \<times> combo option)" where
  "winner b =
     (case winner_loop (cells b) WIN_COMBINATIONS of
        Inl e \<Rightarrow> Inl e
      | Inr (Some r) \<Rightarrow> Inr r
      | Inr None \<Rightarrow>
          if list_all (\<lambda>c. c \<noteq> None) (cells b) then Inr (Some ''Draw'', None)
          else Inr (None, None))"

section \<open>AI\<close>

record ai =
  ai_mark :: string
  human_mark :: string
  difficulty :: string

definition AI_init :: "string \<Rightarrow> string \<Rightarrow> string \<Rightarrow> ai" where
  "AI_init am hm d = \<lparr>ai_mark = am, human_mark = hm, difficulty = d\<rparr>"

fun check_winner_loop :: "cell list \<Rightarrow> combo list \<Rightarrow> error + cell option" where
  "check_winner_loop bd [] = Inr None"
| "check_winner_loop bd ((a, b, c) # rest) =
     (case getitem bd a of
        Inl e \<Rightarrow> Inl e
      | Inr ca \<Rightarrow>
          if truthy ca then
            (case getitem bd b of
               Inl e \<Rightarrow> Inl e
             | Inr cb \<Rightarrow>
                 if ca = cb then
                   (case getitem bd c of
                      Inl e \<Rightarrow> Inl e
                    | Inr cc \<Rightarrow>
                        if cb = cc then Inr (Some ca)
                        else check_winner_loop bd rest)
                 else check_winner_loop bd rest)
          else check_winner_loop bd rest)"

definition check_winner :: "cell list \<Rightarrow> error + cell" where
  "check_winner bd =
     (case check_winner_loop bd WIN_COMBINATIONS of
        Inl e \<Rightarrow> Inl e
      | Inr (Some w) \<Rightarrow> Inr w
      | Inr None \<Rightarrow>
          if list_all (\<lambda>c. c \<noteq> None) bd then Inr (Some ''Draw'') else Inr None)"

text \<open>
  \<open>AI._minimax\<close> mutates the list it is given: it writes a mark into an empty cell, recurses,
  and writes \<open>None\<close> back. The model passes the list through: every function returns the
  pair (value, move) together with the list as the call leaves it. The two \<open>for i in range(9)\<close>
  loops are \<open>max_loop\<close> and \<open>min_loop\<close>, with the loop variables as arguments.
\<close>

function minimax ::
    "ai \<Rightarrow> cell list \<Rightarrow> bool \<Rightarrow> int \<Rightarrow> int \<Rightarrow> int \<Rightarrow> int \<Rightarrow> error + ((int \<times> nat option) \<times> cell list)"
  and max_loop ::
    "ai \<Rightarrow> nat \<Rightarrow> cell list \<Rightarrow> int \<Rightarrow> int \<Rightarrow> int \<Rightarrow> int \<Rightarrow> int \<Rightarrow> nat option
       \<Rightarrow> error + ((int \<times> nat option) \<times> cell list)"
  and min_loop ::
    "ai \<Rightarrow> nat \<Rightarrow> cell list \<Rightarrow> int \<Rightarrow> int \<Rightarrow> int \<Rightarrow> int \<Rightarrow> int \<Rightarrow> nat option
       \<Rightarrow> error + ((int \<times> nat option) \<times> cell list)"
where
  "minimax a bd is_max alpha beta depth max_depth =
     (case check_winner bd of
        Inl e \<Rightarrow> Inl e
      | Inr w \<Rightarrow>
          if w = Some (ai_mark a) then Inr ((100 - depth, None), bd)
          else if w = Some (human_mark a) then Inr ((- 100 + depth, None), bd)
          else if w = Some ''Draw'' then Inr ((0, None), bd)
          else if depth \<ge> max_depth then Inr ((0, None), bd)
          else if is_max then max_loop a 0 bd alpha beta depth max_depth (- 9999) None
          else min_loop a 0 bd alpha beta depth max_depth 9999 None)"
| "max_loop a i bd alpha beta depth max_depth best_val best_mv =
     (if i < 9 then
        (case getitem bd i of
           Inl e \<Rightarrow> Inl e
         | Inr c \<Rightarrow>
             if c = None then
               (case minimax a (bd[i := Some (ai_mark a)]) False alpha beta (depth + 1) max_depth of
                  Inl e \<Rightarrow> Inl e
                | Inr (r, bd') \<Rightarrow>
                    let bd'' = bd'[i := None];
                        best_val' = (if fst r > best_val then fst r else best_val);
                        best_mv' = (if fst r > best_val then Some i else best_mv);
                        alpha' = max alpha best_val'
                    in if beta \<le> alpha' then Inr ((best_val', best_mv'), bd'')
                       else max_loop a (i + 1) bd'' alpha' beta depth max_depth best_val' best_mv')
             else max_loop a (i + 1) bd alpha beta depth max_depth best_val best_mv)
      else Inr ((best_val, best_mv), bd))"
| "min_loop a i bd alpha beta depth max_depth best_val best_mv =
     (if i < 9 then
        (case getitem bd i of
           Inl e \<Rightarrow> Inl e
         | Inr c \<Rightarrow>
             if c = None then
               (case minimax a (bd[i := Some (human_mark a)]) True alpha beta (depth + 1) max_depth of
                  Inl e \<Rightarrow> Inl e
                | Inr (r, bd') \<Rightarrow>
                    let bd'' = bd'[i := None];
                        best_val' = (if fst r < best_val then fst r else best_val);
                        best_mv' = (if fst r < best_val then Some i else best_mv);
                        beta' = min beta best_val'
                    in if beta' \<le> alpha then Inr ((best_val', best_mv'), bd'')
                       else min_loop a (i + 1) bd'' alpha beta' depth max_depth best_val' best_mv')
             else min_loop a (i + 1) bd alpha beta depth max_depth best_val best_mv)
      else Inr ((best_val, best_mv), bd))"
  by pat_completeness auto
termination
  by (relation "measure (\<lambda>x. case x of
          Inl (a, bd, is_max, alpha, beta, depth, max_depth) \<Rightarrow>
            (if depth < max_depth then nat (max_depth - depth) * 20 + 11 else 0)
        | Inr (Inl (a, i, bd, alpha, beta, depth, max_depth, bv, bm)) \<Rightarrow>
            nat (max_depth - depth) * 20 + (9 - i) + 1
        | Inr (Inr (a, i, bd, alpha, beta, depth, max_depth, bv, bm)) \<Rightarrow>
            nat (max_depth - depth) * 20 + (9 - i) + 1)")
     (auto simp: nat_diff_distrib)

declare minimax.simps [simp del] max_loop.simps [simp del] min_loop.simps [simp del]

text \<open>
  \<open>AI.best_move\<close>. The random source is an input of the model: \<open>rnd_lt\<close> is the outcome of the
  test \<open>random.random() < 0.35\<close>, and \<open>random.choice(available)\<close> returns the element of
  \<open>available\<close> at position \<open>k mod len(available)\<close>. The search runs on the copy \<open>cells[:]\<close>;
  \<open>best_move_st\<close> returns, next to the move, the contents of that copy when the method
  returns, and \<open>best_move\<close> is the value the method returns.
\<close>

definition choice :: "nat \<Rightarrow> nat list \<Rightarrow> nat" where
  "choice k available = available ! (k mod length available)"

definition best_move_st :: "ai \<Rightarrow> bool \<Rightarrow> nat \<Rightarrow> cell list \<Rightarrow> error + (nat option \<times> cell list)" where
  "best_move_st a rnd_lt k cs =
     (let available = filter (\<lambda>i. cs ! i = None) [0..<length cs] in
      if available = [] then Inr (None, cs)
      else if difficulty a = ''Easy'' then Inr (Some (choice k available), cs)
      else if difficulty a = ''Medium'' then
        (if rnd_lt then Inr (Some (choice k available), cs)
         else
           (case minimax a cs True (- 9999) 9999 0 4 of
              Inl e \<Rightarrow> Inl e
            | Inr (r, cs') \<Rightarrow>
                (case snd r of
                   Some m \<Rightarrow> Inr (Some m, cs')
                 | None \<Rightarrow> Inr (Some (choice k available), cs'))))
      else
        (case minimax a cs True (- 9999) 9999 0 9 of
           Inl e \<Rightarrow> Inl e
         | Inr (r, cs') \<Rightarrow> Inr (snd r, cs')))"

definition best_move :: "ai \<Rightarrow> bool \<Rightarrow> nat \<Rightarrow> cell list \<Rightarrow> error + nat option" where
  "best_move a rnd_lt k cs =
     (case best_move_st a rnd_lt k cs of Inl e \<Rightarrow> Inl e | Inr (mv, _) \<Rightarrow> Inr mv)"

section \<open>Game: the turn controller\<close>

text \<open>
  The fields of \<open>Game\<close> that the turn logic reads or writes. The score dictionary has the
  three fixed keys \<open>'Player'\<close>, \<open>'AI'\<close> and \<open>'Draws'\<close>. Sounds, fonts, buttons and the screen
  are left out: the turn logic never reads them back.
\<close>

record game =
  gboard :: board
  current_player :: string
  gai :: ai
  mode :: string
  vs_ai :: bool
  score_Player :: int
  score_AI :: int
  score_Draws :: int
  gwinner :: cell
  gwinning_combo :: "combo option"
  last_move_time :: int
  ai_delay_until :: int

definition Game_init :: game where
  "Game_init =
     \<lparr>gboard = Board_init, current_player = PLAYER_X,
      gai = AI_init PLAYER_O PLAYER_X ''Impossible'',
      mode = ''menu'', vs_ai = True,
      score_Player = 0, score_AI = 0, score_Draws = 0,
      gwinner = None, gwinning_combo = None,
      last_move_time = 0, ai_delay_until = 0\<rparr>"

definition game_over_reset :: "game \<Rightarrow> game" where
  "game_over_reset g =
     g\<lparr>gwinner := None, gwinning_combo := None,
       gboard := (gboard g)\<lparr>winning_combo := None, win_anim_start := None\<rparr>,
       mode := ''playing''\<rparr>"

definition reset_game :: "game \<Rightarrow> game" where
  "reset_game g = game_over_reset (g\<lparr>gboard := reset (gboard g), current_player := PLAYER_X\<rparr>)"

definition set_pvp :: "game \<Rightarrow> game" where
  "set_pvp g = reset_game (g\<lparr>vs_ai := False, mode := ''playing''\<rparr>)"

definition set_pvai :: "game \<Rightarrow> game" where
  "set_pvai g = reset_game (g\<lparr>vs_ai := True, mode := ''playing''\<rparr>)"

definition open_menu :: "game \<Rightarrow> game" where
  "open_menu g = g\<lparr>mode := ''menu''\<rparr>"

definition check_end :: "game \<Rightarrow> error + game" where
  "check_end g =
     (case winner (gboard g) of
        Inl e \<Rightarrow> Inl e
      | Inr (w, cmb) \<Rightarrow>
          if w \<noteq> None then
            (let g1 = g\<lparr>mode := ''gameover'', gwinner := w, gwinning_combo := cmb,
                        gboard := (gboard g)\<lparr>winning_combo := cmb\<rparr>\<rparr>
             in if w = Some PLAYER_X then Inr (g1\<lparr>score_Player := score_Player g1 + 1\<rparr>)
                else if w = Some PLAYER_O then Inr (g1\<lparr>score_AI := score_AI g1 + 1\<rparr>)
                else Inr (g1\<lparr>score_Draws := score_Draws g1 + 1\<rparr>))
          else Inr g)"

text \<open>
  \<open>Game.handle_click_board\<close>. The pixel arithmetic that turns the mouse position into a cell
  index uses the floating-point cell size and is not modelled: \<open>hit\<close> is \<open>None\<close> for a click
  outside the board rectangle and \<open>Some idx\<close> for the index \<open>row * 3 + col\<close> the method
  computes. \<open>now\<close> is the reading of \<open>pygame.time.get_ticks()\<close>.
\<close>

definition handle_click_board :: "int \<Rightarrow> int option \<Rightarrow> game \<Rightarrow> error + game" where
  "handle_click_board now hit g =
     (if mode g \<noteq> ''playing'' then Inr g
      else
        (case hit of
           None \<Rightarrow> Inr g
         | Some idx \<Rightarrow>
             if 0 \<le> idx \<and> idx < 9 then
               (case getitem (cells (gboard g)) (nat idx) of
                  Inl e \<Rightarrow> Inl e
                | Inr c \<Rightarrow>
                    if c = None then
                      (case place now idx (current_player g) (gboard g) of
                         Inl e \<Rightarrow> Inl e
                       | Inr (placed, b') \<Rightarrow>
                           if placed then
                             (case check_end (g\<lparr>gboard := b', last_move_time := now\<rparr>) of
                                Inl e \<Rightarrow> Inl e
                              | Inr g' \<Rightarrow>
                                  if mode g' \<noteq> ''gameover'' then
                                    (if vs_ai g' then
                                       Inr (g'\<lparr>current_player := PLAYER_O,
                                                ai_delay_until := now + 340\<rparr>)
                                     else
                                       Inr (g'\<lparr>current_player :=
                                                  (if current_player g' = PLAYER_X then PLAYER_O
                                                   else PLAYER_X)\<rparr>))
                                  else Inr g')
                           else Inr (g\<lparr>gboard := b'\<rparr>))
                    else Inr g)
             else Inr g))"

text \<open>\<open>Game.ai_turn\<close>, with the clock reading and the random source as inputs.\<close>

definition ai_turn :: "int \<Rightarrow> bool \<Rightarrow> nat \<Rightarrow> game \<Rightarrow> error + game" where
  "ai_turn now rnd_lt k g =
     (if \<not> vs_ai g \<or> mode g \<noteq> ''playing'' then Inr g
      else if current_player g \<noteq> PLAYER_O then Inr g
      else if now < ai_delay_until g then Inr g
      else
        (case best_move (gai g) rnd_lt k (cells (gboard g)) of
           Inl e \<Rightarrow> Inl e
         | Inr mv \<Rightarrow>
             (case (case mv of
                      None \<Rightarrow> Inr (gboard g)
                    | Some m \<Rightarrow>
                        (case place now (int m) PLAYER_O (gboard g) of
                           Inl e \<Rightarrow> Inl e
                         | Inr (_, b') \<Rightarrow> Inr b')) of
                Inl e \<Rightarrow> Inl e
              | Inr b' \<Rightarrow>
                  (case check_end (g\<lparr>gboard := b', last_move_time := now\<rparr>) of
                     Inl e \<Rightarrow> Inl e
                   | Inr g' \<Rightarrow>
                       if mode g' \<noteq> ''gameover'' then Inr (g'\<lparr>current_player := PLAYER_X\<rparr>)
                       else Inr g'))))"

section \<open>Reference semantics of the search\<close>

text \<open>
  The value the search is meant to compute: the same terminal scores and the same depth
  cutoff as \<open>_minimax\<close>, with the maximum (for the engine) or the minimum (for the opponent)
  taken over all empty cells and no pruning. \<open>plain_max a i bd d md\<close> is the maximum over the
  empty cells with index at least \<open>i\<close>, starting from the initial \<open>best_val\<close> of the loop.
\<close>

function plain_minimax :: "ai \<Rightarrow> cell list \<Rightarrow> bool \<Rightarrow> int \<Rightarrow> int \<Rightarrow> int"
  and plain_max :: "ai \<Rightarrow> nat \<Rightarrow> cell list \<Rightarrow> int \<Rightarrow> int \<Rightarrow> int"
  and plain_min :: "ai \<Rightarrow> nat \<Rightarrow> cell list \<Rightarrow> int \<Rightarrow> int \<Rightarrow> int"
where
  "plain_minimax a bd is_max depth max_depth =
     (case check_winner bd of
        Inl e \<Rightarrow> 0
      | Inr w \<Rightarrow>
          if w = Some (ai_mark a) then 100 - depth
          else if w = Some (human_mark a) then - 100 + depth
          else if w = Some ''Draw'' then 0
          else if depth \<ge> max_depth then 0
          else if is_max then plain_max a 0 bd depth max_depth
          else plain_min a 0 bd depth max_depth)"
| "plain_max a i bd depth max_depth =
     (if i < 9 then
        (if i < length bd \<and> bd ! i = None then
           max (plain_minimax a (bd[i := Some (ai_mark a)]) False (depth + 1) max_depth)
               (plain_max a (i + 1) bd depth max_depth)
         else plain_max a (i + 1) bd depth max_depth)
      else - 9999)"
| "plain_min a i bd depth max_depth =
     (if i < 9 then
        (if i < length bd \<and> bd ! i = None then
           min (plain_minimax a (bd[i := Some (human_mark a)]) True (depth + 1) max_depth)
               (plain_min a (i + 1) bd depth max_depth)
         else plain_min a (i + 1) bd depth max_depth)
      else 9999)"
  by pat_completeness auto
termination
  by (relation "measure (\<lambda>x. case x of
          Inl (a, bd, is_max, depth, max_depth) \<Rightarrow>
            (if depth < max_depth then nat (max_depth - depth) * 20 + 11 else 0)
        | Inr (Inl (a, i, bd, depth, max_depth)) \<Rightarrow>
            nat (max_depth - depth) * 20 + (9 - i) + 1
        | Inr (Inr (a, i, bd, depth, max_depth)) \<Rightarrow>
            nat (max_depth - depth) * 20 + (9 - i) + 1)")
     (auto simp: nat_diff_distrib)

declare plain_minimax.simps [simp del] plain_max.simps [simp del] plain_min.simps [simp del]

text \<open>
  What a search with the window \<open>(al, be)\<close> may return for a position of value \<open>V\<close>: the value
  itself when it lies inside the window, an upper bound when it fails low and a lower bound
  when it fails high.
\<close>

definition ab_sound :: "int \<Rightarrow> int \<Rightarrow> int \<Rightarrow> int \<Rightarrow> bool" where
  "ab_sound al be v V \<longleftrightarrow> (v \<le> al \<longrightarrow> V \<le> v) \<and> (al < v \<and> v < be \<longrightarrow> v = V) \<and> (be \<le> v \<longrightarrow> v \<le> V)"

text \<open>
  A board of the game: nine cells, each empty or holding one of the two marks. The value of
  a move of the engine is the reference value of the position after it, at the depth limit
  of the difficulty.
\<close>

definition valid_board :: "ai \<Rightarrow> cell list \<Rightarrow> bool" where
  "valid_board a bd \<longleftrightarrow>
     length bd = 9 \<and> list_all (\<lambda>c. c = None \<or> c = Some (ai_mark a) \<or> c = Some (human_mark a)) bd"

definition move_value :: "ai \<Rightarrow> cell list \<Rightarrow> nat \<Rightarrow> int" where
  "move_value a cs j =
     plain_minimax a (cs[j := Some (ai_mark a)]) False 1 (if difficulty a = ''Medium'' then 4 else 9)"

section \<open>Games against the engine\<close>

text \<open>
  A position is safe for the engine when the opponent has no completed line and, if the
  game goes on, either the engine is to move and has a move to a safe position, or the
  opponent is to move and every move of theirs leads to a safe position. The first argument
  after the engine bounds the number of moves still looked at; nine is enough on a
  nine-cell board. Cells are examined in the order \<open>move_order\<close>, centre and corners first.
\<close>

definition move_order :: "nat list" where
  "move_order = [4, 0, 2, 6, 8, 1, 3, 5, 7]"

function safe :: "ai \<Rightarrow> nat \<Rightarrow> bool \<Rightarrow> cell list \<Rightarrow> bool"
  and safe_all :: "ai \<Rightarrow> nat \<Rightarrow> cell list \<Rightarrow> nat list \<Rightarrow> bool"
  and safe_ex :: "ai \<Rightarrow> nat \<Rightarrow> cell list \<Rightarrow> nat list \<Rightarrow> bool"
where
  "safe a 0 h bd =
     (case check_winner bd of
        Inl e \<Rightarrow> False
      | Inr w \<Rightarrow>
          if w = Some (ai_mark a) then True
          else if w = Some (human_mark a) then False
          else w = Some ''Draw'')"
| "safe a (Suc n) h bd =
     (case check_winner bd of
        Inl e \<Rightarrow> False
      | Inr w \<Rightarrow>
          if w = Some (ai_mark a) then True
          else if w = Some (human_mark a) then False
          else if w = Some ''Draw'' then True
          else if h then safe_all a n bd move_order
          else safe_ex a n bd move_order)"
| "safe_all a n bd [] = True"
| "safe_all a n bd (i # is) =
     (if bd ! i = None then
        (if safe a n False (bd[i := Some (human_mark a)]) then safe_all a n bd is else False)
      else safe_all a n bd is)"
| "safe_ex a n bd [] = False"
| "safe_ex a n bd (i # is) =
     (if bd ! i = None then
        (if safe a n True (bd[i := Some (ai_mark a)]) then True else safe_ex a n bd is)
      else safe_ex a n bd is)"
  by pat_completeness auto
termination
  by (relation "measure (\<lambda>x. case x of
          Inl (a, n, h, bd) \<Rightarrow> n * 20
        | Inr (Inl (a, n, bd, is)) \<Rightarrow> n * 20 + length is + 1
        | Inr (Inr (a, n, bd, is)) \<Rightarrow> n * 20 + length is + 1)")
     (auto simp: move_order_def)

text \<open>The number of empty cells of a list.\<close>

definition empties :: "cell list \<Rightarrow> nat" where
  "empties bd = length (filter (\<lambda>c. c = None) bd)"

text \<open>
  A game against the engine, as the main loop of \<open>Game.run\<close> drives it. One round is a
  frame in which the player clicks (time \<open>now\<close>, cell \<open>hit\<close>), followed by the first frame in
  which \<open>ai_turn\<close> runs when the delay of 340 ms has passed, \<open>wait\<close> ms after it at the
  earliest; \<open>rnd_lt\<close> and \<open>k\<close> are what the random source would deliver in that call. The
  frames in between, where \<open>ai_turn\<close> returns at once, change nothing. \<open>play\<close> runs a list
  of rounds.
\<close>

definition game_round :: "int \<times> int option \<times> nat \<times> bool \<times> nat \<Rightarrow> game \<Rightarrow> error + game" where
  "game_round ev g =
     (case ev of (now, hit, wait, rnd_lt, k) \<Rightarrow>
        (case handle_click_board now hit g of
           Inl e \<Rightarrow> Inl e
         | Inr g1 \<Rightarrow> ai_turn (now + 340 + int wait) rnd_lt k g1))"

fun play :: "(int \<times> int option \<times> nat \<times> bool \<times> nat) list \<Rightarrow> game \<Rightarrow> error + game" where
  "play [] g = Inr g"
| "play (ev # evs) g = (case game_round ev g of Inl e \<Rightarrow> Inl e | Inr g' \<Rightarrow> play evs g')"

text \<open>
  The two kinds of state of a game against the engine at Impossible difficulty that the
  rounds move between: the player is to move in a position that is safe for the engine, or
  the game is over and the engine has won or drawn.
\<close>

definition in_play_safe :: "game \<Rightarrow> bool" where
  "in_play_safe g \<longleftrightarrow>
     vs_ai g \<and> gai g = AI_init PLAYER_O PLAYER_X ''Impossible'' \<and> score_Player g = 0
     \<and> mode g = ''playing'' \<and> current_player g = PLAYER_X \<and> gwinner g = None
     \<and> valid_board (AI_init PLAYER_O PLAYER_X ''Impossible'') (cells (gboard g))
     \<and> check_winner (cells (gboard g)) = Inr None
     \<and> safe (AI_init PLAYER_O PLAYER_X ''Impossible'') 9 True (cells (gboard g))"

definition over_not_lost :: "game \<Rightarrow> bool" where
  "over_not_lost g \<longleftrightarrow>
     score_Player g = 0 \<and> mode g = ''gameover''
     \<and> (gwinner g = Some PLAYER_O \<or> gwinner g = Some ''Draw'')
     \<and> check_winner (cells (gboard g)) = Inr (gwinner g)"

section \<open>Properties of the board\<close>

lemma list_all_not_None: "list_all (\<lambda>c. c \<noteq> None) xs = (None \<notin> set xs)"
  unfolding list_all_iff by metis

lemma winner_loop_find:
  assumes "\<forall>(x, y, z) \<in> set cmbs. x < length cs \<and> y < length cs \<and> z < length cs"
    and "\<forall>c \<in> set cs. c \<noteq> Some []"
  shows "winner_loop cs cmbs =
      Inr (map_option (\<lambda>t. (cs ! fst t, Some t))
        (find (\<lambda>(x, y, z). cs ! x \<noteq> None \<and> cs ! x = cs ! y \<and> cs ! y = cs ! z) cmbs))"
  using assms
proof (induction cmbs)
  case Nil
  then show ?case by simp
next
  case (Cons t cmbs)
  obtain x y z where t: "t = (x, y, z)" by (cases t) auto
  from Cons.prems t have lt: "x < length cs" "y < length cs" "z < length cs" by auto
  have tr: "truthy (cs ! x) = (cs ! x \<noteq> None)"
    using Cons.prems(2) lt(1) by (cases "cs ! x") (auto simp: truthy_def dest: nth_mem)
  from Cons have IH: "winner_loop cs cmbs =
      Inr (map_option (\<lambda>t. (cs ! fst t, Some t))
        (find (\<lambda>(x, y, z). cs ! x \<noteq> None \<and> cs ! x = cs ! y \<and> cs ! y = cs ! z) cmbs))"
    by simp
  show ?case
    by (simp add: t getitem_def lt tr IH)
qed

text \<open>
  C1. On a board of nine cells, each empty or holding a (non-empty) mark, \<open>winner\<close> returns the
  mark and the triple of the first win combination, in the order rows, columns, diagonals,
  whose three cells are occupied and equal; with no such triple it returns \<open>'Draw'\<close> when no
  cell is empty, and \<open>(None, None)\<close> (in progress) otherwise.
\<close>

theorem winner_first_match:
  assumes "length (cells b) = 9" and "\<forall>c \<in> set (cells b). c \<noteq> Some []"
  shows "winner b =
     Inr (case find (\<lambda>(x, y, z). cells b ! x \<noteq> None \<and> cells b ! x = cells b ! y
                                  \<and> cells b ! y = cells b ! z)
                [(0, 1, 2), (3, 4, 5), (6, 7, 8), (0, 3, 6), (1, 4, 7), (2, 5, 8),
                 (0, 4, 8), (2, 4, 6)] of
            Some t \<Rightarrow> (cells b ! fst t, Some t)
          | None \<Rightarrow> if None \<notin> set (cells b) then (Some ''Draw'', None) else (None, None))"
proof -
  have bnd: "\<forall>(x, y, z) \<in> set WIN_COMBINATIONS.
      x < length (cells b) \<and> y < length (cells b) \<and> z < length (cells b)"
    using assms(1) by (simp add: WIN_COMBINATIONS_def)
  show ?thesis
    unfolding winner_def winner_loop_find [OF bnd assms(2)] list_all_not_None
    by (simp add: WIN_COMBINATIONS_def split: option.split)
qed

theorem winner_first_match_witness:
  "winner (Board_init\<lparr>cells := [Some ''O'', Some ''X'', Some ''O'',
                                  Some ''X'', Some ''X'', Some ''X'',
                                  Some ''O'', Some ''X'', Some ''O'']\<rparr>)
     = Inr (Some ''X'', Some (3, 4, 5))"
  using winner_first_match [of "Board_init\<lparr>cells := [Some ''O'', Some ''X'', Some ''O'',
                                  Some ''X'', Some ''X'', Some ''X'',
                                  Some ''O'', Some ''X'', Some ''O'']\<rparr>"]
  by simp

text \<open>
  C3. On a board of nine cells, \<open>place\<close> returns false and leaves the board as it is when the
  index is outside 0..8 or the cell is occupied; otherwise it returns true, the cell holds
  the mark, every other cell is unchanged, and a second \<open>place\<close> at the same index returns
  false and changes nothing.
\<close>

theorem place_spec:
  assumes "length (cells b) = 9"
  shows "if idx < 0 \<or> 8 < idx \<or> cells b ! nat idx \<noteq> None
         then place t idx mark b = Inr (False, b)
         else (\<exists>b'. place t idx mark b = Inr (True, b')
                 \<and> cells b' = (cells b)[nat idx := Some mark]
                 \<and> cells b' ! nat idx = Some mark
                 \<and> (\<forall>j < 9. j \<noteq> nat idx \<longrightarrow> cells b' ! j = cells b ! j)
                 \<and> place t' idx mark' b' = Inr (False, b'))"
  using assms by (auto simp: place_def getitem_def)

theorem place_spec_witness:
  "length (cells Board_init) = 9
   \<and> (\<exists>b'. place 10 3 PLAYER_X Board_init = Inr (True, b')
          \<and> cells b' ! 3 = Some PLAYER_X
          \<and> place 20 3 PLAYER_O b' = Inr (False, b'))"
  using place_spec [where b = Board_init and idx = 3 and t = 10 and mark = PLAYER_X
                      and t' = 20 and mark' = PLAYER_O]
  by (auto simp: Board_init_def)

section \<open>Properties of the win check of the search\<close>

lemma check_winner_loop_winner_loop:
  "check_winner_loop cs cmbs =
     (case winner_loop cs cmbs of Inl e \<Rightarrow> Inl e | Inr r \<Rightarrow> Inr (map_option fst r))"
  by (induction cs cmbs rule: winner_loop.induct) (auto split: sum.splits)

text \<open>
  C10. \<open>AI._check_winner\<close> on a list returns the first component of \<open>Board.winner\<close> on a board
  holding the same cells: the winning mark, \<open>'Draw'\<close> or \<open>None\<close> (and both raise on the same
  lists).
\<close>

theorem check_winner_agrees_with_winner:
  "check_winner (cells b) = (case winner b of Inl e \<Rightarrow> Inl e | Inr r \<Rightarrow> Inr (fst r))"
  by (simp add: check_winner_def winner_def check_winner_loop_winner_loop
           split: sum.splits option.splits)

section \<open>Properties of the search\<close>

text \<open>
  C7. With distinct marks for the two sides, neither of them the string \<open>'Draw'\<close>, \<open>minimax\<close> at
  depth \<open>d\<close> scores a position the engine's mark has won \<open>100 - d\<close>, a position the opponent's
  mark has won \<open>-100 + d\<close>, a draw \<open>0\<close>, and an undecided position at the depth cutoff \<open>0\<close>; it
  returns no move in these cases.
\<close>

theorem minimax_terminal_scores:
  assumes "ai_mark a \<noteq> human_mark a" and "ai_mark a \<noteq> ''Draw''" and "human_mark a \<noteq> ''Draw''"
  shows "(check_winner bd = Inr (Some (ai_mark a)) \<longrightarrow>
            minimax a bd is_max alpha beta d max_depth = Inr ((100 - d, None), bd))
       \<and> (check_winner bd = Inr (Some (human_mark a)) \<longrightarrow>
            minimax a bd is_max alpha beta d max_depth = Inr ((- 100 + d, None), bd))
       \<and> (check_winner bd = Inr (Some ''Draw'') \<longrightarrow>
            minimax a bd is_max alpha beta d max_depth = Inr ((0, None), bd))
       \<and> (check_winner bd = Inr None \<and> max_depth \<le> d \<longrightarrow>
            minimax a bd is_max alpha beta d max_depth = Inr ((0, None), bd))"
  using assms by (auto simp: minimax.simps)

theorem minimax_terminal_scores_witness:
  "minimax (AI_init PLAYER_O PLAYER_X ''Impossible'')
      [Some ''O'', Some ''O'', Some ''O'', Some ''X'', Some ''X'', None, Some ''X'', None, None]
      True (- 9999) 9999 3 9
     = Inr ((97, None),
        [Some ''O'', Some ''O'', Some ''O'', Some ''X'', Some ''X'', None, Some ''X'', None, None])
   \<and> minimax (AI_init PLAYER_O PLAYER_X ''Impossible'')
      [Some ''X'', Some ''X'', Some ''X'', Some ''O'', Some ''O'', None, None, None, None]
      False (- 9999) 9999 5 9
     = Inr ((- 95, None),
        [Some ''X'', Some ''X'', Some ''X'', Some ''O'', Some ''O'', None, None, None, None])
   \<and> minimax (AI_init PLAYER_O PLAYER_X ''Impossible'')
      [Some ''X'', Some ''O'', Some ''X'', Some ''X'', Some ''O'', Some ''O'',
       Some ''O'', Some ''X'', Some ''X'']
      True (- 9999) 9999 9 9
     = Inr ((0, None),
        [Some ''X'', Some ''O'', Some ''X'', Some ''X'', Some ''O'', Some ''O'',
         Some ''O'', Some ''X'', Some ''X''])
   \<and> minimax (AI_init PLAYER_O PLAYER_X ''Medium'') (replicate 9 None) True (- 9999) 9999 4 4
     = Inr ((0, None), replicate 9 None)"
proof -
  let ?a = "AI_init PLAYER_O PLAYER_X ''Impossible''"
  let ?m = "AI_init PLAYER_O PLAYER_X ''Medium''"
  have a: "ai_mark ?a \<noteq> human_mark ?a" "ai_mark ?a \<noteq> ''Draw''" "human_mark ?a \<noteq> ''Draw''"
    by (simp_all add: AI_init_def PLAYER_O_def PLAYER_X_def)
  have m: "ai_mark ?m \<noteq> human_mark ?m" "ai_mark ?m \<noteq> ''Draw''" "human_mark ?m \<noteq> ''Draw''"
    by (simp_all add: AI_init_def PLAYER_O_def PLAYER_X_def)
  have c1: "check_winner [Some ''O'', Some ''O'', Some ''O'', Some ''X'', Some ''X'', None, Some ''X'', None, None] = Inr (Some (ai_mark ?a))"
    by code_simp
  have c2: "check_winner [Some ''X'', Some ''X'', Some ''X'', Some ''O'', Some ''O'', None, None, None, None] = Inr (Some (human_mark ?a))"
    by code_simp
  have c3: "check_winner [Some ''X'', Some ''O'', Some ''X'', Some ''X'', Some ''O'', Some ''O'',
       Some ''O'', Some ''X'', Some ''X''] = Inr (Some ''Draw'')"
    by code_simp
  have c4: "check_winner (replicate 9 None) = Inr None"
    by code_simp
  show ?thesis
    using minimax_terminal_scores [OF a, of _ True "- 9999" 9999 3 9] c1
      minimax_terminal_scores [OF a, of _ False "- 9999" 9999 5 9] c2
      minimax_terminal_scores [OF a, of _ True "- 9999" 9999 9 9] c3
      minimax_terminal_scores [OF m, of "replicate 9 None" True "- 9999" 9999 4 4] c4
    by simp
qed

text \<open>
  C8. On the board with X in cells 0 and 1 and O in cell 4, the engine playing O at
  Impossible difficulty chooses cell 2.
\<close>

theorem best_move_blocks_top_row:
  "best_move (AI_init PLAYER_O PLAYER_X ''Impossible'') rnd_lt k
     [Some PLAYER_X, Some PLAYER_X, None, None, Some PLAYER_O, None, None, None, None]
   = Inr (Some 2)"
  by code_simp

section \<open>The search restores the list it mutates\<close>

lemma getitem_Inr: "getitem xs i = Inr c \<longleftrightarrow> i < length xs \<and> c = xs ! i"
  by (auto simp: getitem_def)

lemma update_restore: "bd ! i = None \<Longrightarrow> bd[i := None] = bd"
  by (metis list_update_id)

lemma max_loop_frame:
  assumes child: "\<And>bd0 al be r bd1.
      minimax a bd0 False al be (depth + 1) max_depth = Inr (r, bd1) \<Longrightarrow> bd1 = bd0"
  shows "max_loop a i bd alpha beta depth max_depth bv bm = Inr (r, bd') \<Longrightarrow> bd' = bd"
proof (induction k \<equiv> "9 - i" arbitrary: i alpha bv bm)
  case 0
  then have "\<not> i < 9" by simp
  with "0.prems" show ?case by (simp add: max_loop.simps)
next
  case (Suc k)
  then have i: "i < 9" and k: "k = 9 - (i + 1)" by simp_all
  show ?case
  proof (cases "getitem bd i")
    case (Inl e)
    with Suc.prems i show ?thesis by (simp add: max_loop.simps)
  next
    case (Inr c)
    then have c: "c = bd ! i" by (simp add: getitem_Inr)
    show ?thesis
    proof (cases "c = None")
      case False
      with Suc.prems i Inr have "max_loop a (i + 1) bd alpha beta depth max_depth bv bm = Inr (r, bd')"
        by (simp add: max_loop.simps)
      then show ?thesis by (rule Suc.hyps(1) [OF k])
    next
      case True
      show ?thesis
      proof (cases "minimax a (bd[i := Some (ai_mark a)]) False alpha beta (depth + 1) max_depth")
        case (Inl e)
        with Suc.prems i Inr True show ?thesis by (simp add: max_loop.simps)
      next
        case (Inr p)
        obtain r1 bd1 where p: "p = (r1, bd1)" by (cases p)
        with Inr child have "bd1 = bd[i := Some (ai_mark a)]" by blast
        moreover have "bd ! i = None" using c True by simp
        ultimately have bd1: "bd1[i := None] = bd" by (simp add: update_restore)
        let ?bv = "if fst r1 > bv then fst r1 else bv"
        let ?bm = "if fst r1 > bv then Some i else bm"
        show ?thesis
        proof (cases "beta \<le> max alpha ?bv")
          case True
          with Suc.prems i \<open>getitem bd i = Inr c\<close> \<open>c = None\<close> Inr p bd1 show ?thesis
            by (simp add: max_loop.simps [of a i] Let_def)
        next
          case False
          with Suc.prems i \<open>getitem bd i = Inr c\<close> \<open>c = None\<close> Inr p bd1
          have "max_loop a (i + 1) bd (max alpha ?bv) beta depth max_depth ?bv ?bm = Inr (r, bd')"
            by (simp add: max_loop.simps [of a i] Let_def)
          then show ?thesis by (rule Suc.hyps(1) [OF k])
        qed
      qed
    qed
  qed
qed

lemma min_loop_frame:
  assumes child: "\<And>bd0 al be r bd1.
      minimax a bd0 True al be (depth + 1) max_depth = Inr (r, bd1) \<Longrightarrow> bd1 = bd0"
  shows "min_loop a i bd alpha beta depth max_depth bv bm = Inr (r, bd') \<Longrightarrow> bd' = bd"
proof (induction k \<equiv> "9 - i" arbitrary: i beta bv bm)
  case 0
  then have "\<not> i < 9" by simp
  with "0.prems" show ?case by (simp add: min_loop.simps)
next
  case (Suc k)
  then have i: "i < 9" and k: "k = 9 - (i + 1)" by simp_all
  show ?case
  proof (cases "getitem bd i")
    case (Inl e)
    with Suc.prems i show ?thesis by (simp add: min_loop.simps)
  next
    case (Inr c)
    then have c: "c = bd ! i" by (simp add: getitem_Inr)
    show ?thesis
    proof (cases "c = None")
      case False
      with Suc.prems i Inr have "min_loop a (i + 1) bd alpha beta depth max_depth bv bm = Inr (r, bd')"
        by (simp add: min_loop.simps)
      then show ?thesis by (rule Suc.hyps(1) [OF k])
    next
      case True
      show ?thesis
      proof (cases "minimax a (bd[i := Some (human_mark a)]) True alpha beta (depth + 1) max_depth")
        case (Inl e)
        with Suc.prems i Inr True show ?thesis by (simp add: min_loop.simps)
      next
        case (Inr p)
        obtain r1 bd1 where p: "p = (r1, bd1)" by (cases p)
        with Inr child have "bd1 = bd[i := Some (human_mark a)]" by blast
        moreover have "bd ! i = None" using c True by simp
        ultimately have bd1: "bd1[i := None] = bd" by (simp add: update_restore)
        let ?bv = "if fst r1 < bv then fst r1 else bv"
        let ?bm = "if fst r1 < bv then Some i else bm"
        show ?thesis
        proof (cases "min beta ?bv \<le> alpha")
          case True
          with Suc.prems i \<open>getitem bd i = Inr c\<close> \<open>c = None\<close> Inr p bd1 show ?thesis
            by (simp add: min_loop.simps [of a i] Let_def)
        next
          case False
          with Suc.prems i \<open>getitem bd i = Inr c\<close> \<open>c = None\<close> Inr p bd1
          have "min_loop a (i + 1) bd alpha (min beta ?bv) depth max_depth ?bv ?bm = Inr (r, bd')"
            by (simp add: min_loop.simps [of a i] Let_def)
          then show ?thesis by (rule Suc.hyps(1) [OF k])
        qed
      qed
    qed
  qed
qed

lemma minimax_frame:
  "minimax a bd is_max alpha beta depth max_depth = Inr (r, bd') \<Longrightarrow> bd' = bd"
proof (induction "nat (max_depth - depth)" arbitrary: bd is_max alpha beta depth r bd'
        rule: less_induct)
  case less
  show ?case
  proof (cases "max_depth \<le> depth")
    case True
    with less.prems show ?thesis
      by (simp add: minimax.simps split: sum.splits if_splits)
  next
    case False
    then have lt: "nat (max_depth - (depth + 1)) < nat (max_depth - depth)" by simp
    have child: "\<And>im bd0 al be r bd1.
        minimax a bd0 im al be (depth + 1) max_depth = Inr (r, bd1) \<Longrightarrow> bd1 = bd0"
      using less.hyps [OF lt] by blast
    have childF: "\<And>bd0 al be r bd1.
        minimax a bd0 False al be (depth + 1) max_depth = Inr (r, bd1) \<Longrightarrow> bd1 = bd0"
      by (rule child)
    have childT: "\<And>bd0 al be r bd1.
        minimax a bd0 True al be (depth + 1) max_depth = Inr (r, bd1) \<Longrightarrow> bd1 = bd0"
      by (rule child)
    have A: "max_loop a 0 bd alpha beta depth max_depth (- 9999) None = Inr (r, bd') \<Longrightarrow> bd' = bd"
      by (rule max_loop_frame [OF childF])
    have B: "min_loop a 0 bd alpha beta depth max_depth 9999 None = Inr (r, bd') \<Longrightarrow> bd' = bd"
      by (rule min_loop_frame [OF childT])
    from less.prems have "bd' = bd
        \<or> max_loop a 0 bd alpha beta depth max_depth (- 9999) None = Inr (r, bd')
        \<or> min_loop a 0 bd alpha beta depth max_depth 9999 None = Inr (r, bd')"
      by (simp add: minimax.simps split: sum.splits if_splits)
    with A B show ?thesis by blast
  qed
qed

lemma best_move_st_frame: "best_move_st a rnd_lt k cs = Inr (m, w) \<Longrightarrow> w = cs"
  by (auto simp: best_move_st_def Let_def split: if_splits sum.splits option.splits
           dest: minimax_frame)

lemma check_winner_loop_total:
  "\<forall>(x, y, z) \<in> set cmbs. x < length bd \<and> y < length bd \<and> z < length bd
   \<Longrightarrow> \<exists>r. check_winner_loop bd cmbs = Inr r"
  by (induction bd cmbs rule: check_winner_loop.induct) (auto simp: getitem_def)

lemma check_winner_total: "length bd = 9 \<Longrightarrow> \<exists>w. check_winner bd = Inr w"
proof -
  assume "length bd = 9"
  then have "\<forall>(x, y, z) \<in> set WIN_COMBINATIONS. x < length bd \<and> y < length bd \<and> z < length bd"
    by (simp add: WIN_COMBINATIONS_def)
  from check_winner_loop_total [OF this] obtain r where "check_winner_loop bd WIN_COMBINATIONS = Inr r" ..
  then show ?thesis by (simp add: check_winner_def split: option.splits)
qed

lemma max_loop_total:
  assumes child: "\<And>bd0 al be. length bd0 = 9 \<Longrightarrow>
      \<exists>r. minimax a bd0 False al be (depth + 1) max_depth = Inr (r, bd0)"
    and len: "length bd = 9"
  shows "\<exists>r. max_loop a i bd alpha beta depth max_depth bv bm = Inr (r, bd)"
proof (induction k \<equiv> "9 - i" arbitrary: i alpha bv bm)
  case 0
  then have "\<not> i < 9" by simp
  then show ?case by (simp add: max_loop.simps)
next
  case (Suc k)
  then have i: "i < 9" and k: "k = 9 - (i + 1)" by simp_all
  have g: "getitem bd i = Inr (bd ! i)" using i len by (simp add: getitem_def)
  show ?case
  proof (cases "bd ! i = None")
    case False
    then obtain y where "bd ! i = Some y" by auto
    with i g Suc.hyps(1) [OF k, of alpha bv bm] show ?thesis
      by (simp add: max_loop.simps [of a i])
  next
    case True
    from child [of "bd[i := Some (ai_mark a)]" alpha beta] len
    obtain r1 where r1: "minimax a (bd[i := Some (ai_mark a)]) False alpha beta (depth + 1) max_depth
        = Inr (r1, bd[i := Some (ai_mark a)])" by auto
    let ?bv = "if fst r1 > bv then fst r1 else bv"
    let ?bm = "if fst r1 > bv then Some i else bm"
    from True have rs: "bd[i := None] = bd" by (rule update_restore)
    show ?thesis
      using i g True r1 rs Suc.hyps(1) [OF k, of "max alpha ?bv" ?bv ?bm]
      by (simp add: max_loop.simps [of a i] Let_def)
  qed
qed

lemma min_loop_total:
  assumes child: "\<And>bd0 al be. length bd0 = 9 \<Longrightarrow>
      \<exists>r. minimax a bd0 True al be (depth + 1) max_depth = Inr (r, bd0)"
    and len: "length bd = 9"
  shows "\<exists>r. min_loop a i bd alpha beta depth max_depth bv bm = Inr (r, bd)"
proof (induction k \<equiv> "9 - i" arbitrary: i beta bv bm)
  case 0
  then have "\<not> i < 9" by simp
  then show ?case by (simp add: min_loop.simps)
next
  case (Suc k)
  then have i: "i < 9" and k: "k = 9 - (i + 1)" by simp_all
  have g: "getitem bd i = Inr (bd ! i)" using i len by (simp add: getitem_def)
  show ?case
  proof (cases "bd ! i = None")
    case False
    then obtain y where "bd ! i = Some y" by auto
    with i g Suc.hyps(1) [OF k, of beta bv bm] show ?thesis
      by (simp add: min_loop.simps [of a i])
  next
    case True
    from child [of "bd[i := Some (human_mark a)]" alpha beta] len
    obtain r1 where r1: "minimax a (bd[i := Some (human_mark a)]) True alpha beta (depth + 1) max_depth
        = Inr (r1, bd[i := Some (human_mark a)])" by auto
    let ?bv = "if fst r1 < bv then fst r1 else bv"
    let ?bm = "if fst r1 < bv then Some i else bm"
    from True have rs: "bd[i := None] = bd" by (rule update_restore)
    show ?thesis
      using i g True r1 rs Suc.hyps(1) [OF k, of "min beta ?bv" ?bv ?bm]
      by (simp add: min_loop.simps [of a i] Let_def)
  qed
qed

lemma minimax_total:
  "length bd = 9 \<Longrightarrow> \<exists>r. minimax a bd is_max alpha beta depth max_depth = Inr (r, bd)"
proof (induction "nat (max_depth - depth)" arbitrary: bd is_max alpha beta depth
        rule: less_induct)
  case less
  from check_winner_total [OF less.prems] obtain w where w: "check_winner bd = Inr w" ..
  show ?case
  proof (cases "max_depth \<le> depth")
    case True
    with w show ?thesis by (simp add: minimax.simps)
  next
    case False
    then have lt: "nat (max_depth - (depth + 1)) < nat (max_depth - depth)" by simp
    have childF: "\<And>bd0 al be. length bd0 = 9 \<Longrightarrow>
        \<exists>r. minimax a bd0 False al be (depth + 1) max_depth = Inr (r, bd0)"
      using less.hyps [OF lt] by blast
    have childT: "\<And>bd0 al be. length bd0 = 9 \<Longrightarrow>
        \<exists>r. minimax a bd0 True al be (depth + 1) max_depth = Inr (r, bd0)"
      using less.hyps [OF lt] by blast
    from max_loop_total [OF childF less.prems, of 0 alpha beta "- 9999" None]
      min_loop_total [OF childT less.prems, of 0 alpha beta 9999 None] w False
    show ?thesis by (simp add: minimax.simps)
  qed
qed

lemma best_move_st_total: "length cs = 9 \<Longrightarrow> \<exists>m. best_move_st a rnd_lt k cs = Inr (m, cs)"
  using minimax_total [of cs a True "- 9999" 9999 0 4] minimax_total [of cs a True "- 9999" 9999 0 9]
  by (auto simp: best_move_st_def Let_def split: option.splits)

text \<open>
  C9. The search leaves the list it works on as it found it. Every call of \<open>_minimax\<close> that
  returns hands back the list with the contents it was given, whichever way the two loops
  are left (the end of the range or the pruning \<open>break\<close>). Hence the copy \<open>best_move\<close> makes
  of its argument holds the argument's contents again when \<open>best_move\<close> returns, and on a
  nine-cell list \<open>best_move\<close> does return. The argument itself is never written to.
\<close>

theorem search_restores_board:
  "(minimax a bd is_max alpha beta depth max_depth = Inr (r, bd') \<longrightarrow> bd' = bd)
   \<and> (best_move_st a rnd_lt k cs = Inr (m, w) \<longrightarrow> w = cs)
   \<and> (length cs = 9 \<longrightarrow> (\<exists>m. best_move_st a rnd_lt k cs = Inr (m, cs)))"
  using minimax_frame best_move_st_frame best_move_st_total by blast

theorem search_restores_board_witness:
  "\<exists>m. best_move_st (AI_init PLAYER_O PLAYER_X ''Impossible'') False 0
           [Some PLAYER_X, Some PLAYER_X, None, None, Some PLAYER_O, None, None, None, None]
        = Inr (m, [Some PLAYER_X, Some PLAYER_X, None, None, Some PLAYER_O, None, None, None, None])"
  using search_restores_board [where cs = "[Some PLAYER_X, Some PLAYER_X, None, None, Some PLAYER_O, None, None, None, None]"]
  by simp

section \<open>Behaviour on particular inputs\<close>

text \<open>
  On a board where X has already completed the top row and four cells are still empty,
  \<open>best_move\<close> at Impossible difficulty returns \<open>None\<close>: \<open>_minimax\<close> returns the terminal score
  with no move. Such a board is never handed to \<open>best_move\<close> by \<open>ai_turn\<close>, which runs only
  while the game is in play.
\<close>

theorem best_move_none_on_decided_board:
  "best_move (AI_init PLAYER_O PLAYER_X ''Impossible'') False 0
     [Some PLAYER_X, Some PLAYER_X, Some PLAYER_X, Some PLAYER_O, Some PLAYER_O,
      None, None, None, None]
   = Inr None
   \<and> [Some PLAYER_X, Some PLAYER_X, Some PLAYER_X, Some PLAYER_O, Some PLAYER_O,
      None, None, None, None] ! 5 = None"
  by code_simp

text \<open>
  C4. In a game against the engine, the first click (cell 0, at time 1000) places an X and
  hands the turn to O with the engine due at time 1340. A second click at time 1100 on the
  empty cell 1, before the engine has moved, is not rejected: it places an O in cell 1.
\<close>

theorem click_during_engine_turn_places_mark:
  "(case handle_click_board 1000 (Some 0) (set_pvai Game_init) of
      Inl e \<Rightarrow> False
    | Inr g1 \<Rightarrow>
        vs_ai g1 \<and> mode g1 = ''playing'' \<and> current_player g1 = PLAYER_O
        \<and> cells (gboard g1) = [Some PLAYER_X, None, None, None, None, None, None, None, None]
        \<and> (case handle_click_board 1100 (Some 1) g1 of
              Inl e \<Rightarrow> False
            | Inr g2 \<Rightarrow>
                cells (gboard g2) =
                  [Some PLAYER_X, Some PLAYER_O, None, None, None, None, None, None, None]
                \<and> mode g2 = ''playing'' \<and> current_player g2 = PLAYER_O))"
  by code_simp

section \<open>Alpha-beta pruning computes the reference value\<close>

lemma max_loop_end: "\<not> i < 9 \<Longrightarrow> max_loop a i bd alpha beta d md bv bm = Inr ((bv, bm), bd)"
  by (simp add: max_loop.simps)

lemma min_loop_end: "\<not> i < 9 \<Longrightarrow> min_loop a i bd alpha beta d md bv bm = Inr ((bv, bm), bd)"
  by (simp add: min_loop.simps)

lemma max_loop_skip:
  assumes "length bd = 9" "i < 9" "bd ! i \<noteq> None"
  shows "max_loop a i bd alpha beta d md bv bm = max_loop a (i + 1) bd alpha beta d md bv bm"
proof -
  from assms obtain y where "bd ! i = Some y" by auto
  with assms show ?thesis by (simp add: max_loop.simps [of a i] getitem_def)
qed

lemma min_loop_skip:
  assumes "length bd = 9" "i < 9" "bd ! i \<noteq> None"
  shows "min_loop a i bd alpha beta d md bv bm = min_loop a (i + 1) bd alpha beta d md bv bm"
proof -
  from assms obtain y where "bd ! i = Some y" by auto
  with assms show ?thesis by (simp add: min_loop.simps [of a i] getitem_def)
qed

lemma max_loop_try:
  assumes "length bd = 9" "i < 9" "bd ! i = None"
    and "minimax a (bd[i := Some (ai_mark a)]) False alpha beta (d + 1) md
           = Inr ((v1, m1), bd[i := Some (ai_mark a)])"
  shows "max_loop a i bd alpha beta d md bv bm =
     (if beta \<le> max alpha (max bv v1)
      then Inr ((max bv v1, if bv < v1 then Some i else bm), bd)
      else max_loop a (i + 1) bd (max alpha (max bv v1)) beta d md (max bv v1)
             (if bv < v1 then Some i else bm))"
proof -
  from assms(3) have "bd[i := None] = bd" by (rule update_restore)
  with assms show ?thesis
    by (simp add: max_loop.simps [of a i] getitem_def Let_def max_def)
qed

lemma min_loop_try:
  assumes "length bd = 9" "i < 9" "bd ! i = None"
    and "minimax a (bd[i := Some (human_mark a)]) True alpha beta (d + 1) md
           = Inr ((v1, m1), bd[i := Some (human_mark a)])"
  shows "min_loop a i bd alpha beta d md bv bm =
     (if min beta (min bv v1) \<le> alpha
      then Inr ((min bv v1, if v1 < bv then Some i else bm), bd)
      else min_loop a (i + 1) bd alpha (min beta (min bv v1)) d md (min bv v1)
             (if v1 < bv then Some i else bm))"
proof -
  from assms(3) have "bd[i := None] = bd" by (rule update_restore)
  with assms show ?thesis
    by (simp add: min_loop.simps [of a i] getitem_def Let_def min_def)
qed

lemma plain_max_end: "\<not> i < 9 \<Longrightarrow> plain_max a i bd d md = - 9999"
  by (simp add: plain_max.simps)

lemma plain_min_end: "\<not> i < 9 \<Longrightarrow> plain_min a i bd d md = 9999"
  by (simp add: plain_min.simps)

lemma plain_max_skip:
  "length bd = 9 \<Longrightarrow> i < 9 \<Longrightarrow> bd ! i \<noteq> None \<Longrightarrow> plain_max a i bd d md = plain_max a (i + 1) bd d md"
  by (subst plain_max.simps) auto

lemma plain_min_skip:
  "length bd = 9 \<Longrightarrow> i < 9 \<Longrightarrow> bd ! i \<noteq> None \<Longrightarrow> plain_min a i bd d md = plain_min a (i + 1) bd d md"
  by (subst plain_min.simps) auto

lemma plain_max_try:
  "length bd = 9 \<Longrightarrow> i < 9 \<Longrightarrow> bd ! i = None \<Longrightarrow>
   plain_max a i bd d md =
     max (plain_minimax a (bd[i := Some (ai_mark a)]) False (d + 1) md) (plain_max a (i + 1) bd d md)"
  by (subst plain_max.simps) auto

lemma plain_min_try:
  "length bd = 9 \<Longrightarrow> i < 9 \<Longrightarrow> bd ! i = None \<Longrightarrow>
   plain_min a i bd d md =
     min (plain_minimax a (bd[i := Some (human_mark a)]) True (d + 1) md) (plain_min a (i + 1) bd d md)"
  by (subst plain_min.simps) auto

lemma ab_max_step_cut:
  assumes "ab_sound alpha be v1 V1" "bv \<le> alpha" "alpha < be" "be \<le> max alpha (max bv v1)"
  shows "bv \<le> max bv v1 \<and> ab_sound alpha be (max bv v1) (max V1 W)"
  using assms unfolding ab_sound_def by (auto simp: max_def split: if_splits)

lemma ab_max_step_go:
  assumes "ab_sound alpha be v1 V1" "bv \<le> alpha" "alpha < be" "\<not> be \<le> max alpha (max bv v1)"
    and "max bv v1 \<le> v" "ab_sound (max alpha (max bv v1)) be v W"
  shows "bv \<le> v \<and> ab_sound alpha be v (max V1 W)"
  using assms unfolding ab_sound_def by (auto simp: max_def split: if_splits)

lemma ab_min_step_cut:
  assumes "ab_sound al beta v1 V1" "beta \<le> bv" "al < beta" "min beta (min bv v1) \<le> al"
  shows "min bv v1 \<le> bv \<and> ab_sound al beta (min bv v1) (min V1 W)"
  using assms unfolding ab_sound_def by (auto simp: min_def split: if_splits)

lemma ab_min_step_go:
  assumes "ab_sound al beta v1 V1" "beta \<le> bv" "al < beta" "\<not> min beta (min bv v1) \<le> al"
    and "v \<le> min bv v1" "ab_sound al (min beta (min bv v1)) v W"
  shows "v \<le> bv \<and> ab_sound al beta v (min V1 W)"
  using assms unfolding ab_sound_def by (auto simp: min_def split: if_splits)


lemma max_loop_ab:
  assumes child: "\<And>bd0 al. length bd0 = 9 \<Longrightarrow> - 9999 \<le> al \<Longrightarrow> al < be \<Longrightarrow>
      \<exists>v m. minimax a bd0 False al be (d + 1) md = Inr ((v, m), bd0)
            \<and> ab_sound al be v (plain_minimax a bd0 False (d + 1) md)"
    and len: "length bd = 9"
  shows "- 9999 \<le> bv \<Longrightarrow> bv \<le> alpha \<Longrightarrow> alpha < be \<Longrightarrow>
     \<exists>v m. max_loop a i bd alpha be d md bv bm = Inr ((v, m), bd)
           \<and> bv \<le> v \<and> ab_sound alpha be v (plain_max a i bd d md)"
proof (induction k \<equiv> "9 - i" arbitrary: i alpha bv bm)
  case 0
  then have "\<not> i < 9" by simp
  with 0 show ?case
    by (simp add: max_loop_end plain_max_end ab_sound_def)
next
  case (Suc k)
  then have i: "i < 9" and k: "k = 9 - (i + 1)" by simp_all
  show ?case
  proof (cases "bd ! i = None")
    case False
    with Suc.hyps(1) [OF k Suc.prems] len i show ?thesis
      by (simp add: max_loop_skip plain_max_skip)
  next
    case True
    from Suc.prems have al: "- 9999 \<le> alpha" by simp
    from child [of "bd[i := Some (ai_mark a)]" alpha, OF _ al Suc.prems(3)] len
    obtain v1 m1 where
      r: "minimax a (bd[i := Some (ai_mark a)]) False alpha be (d + 1) md
            = Inr ((v1, m1), bd[i := Some (ai_mark a)])"
      and s: "ab_sound alpha be v1 (plain_minimax a (bd[i := Some (ai_mark a)]) False (d + 1) md)"
      by auto
    note step = max_loop_try [OF len i True r, of bv bm]
    note pstep = plain_max_try [OF len i True, of a d md]
    show ?thesis
    proof (cases "be \<le> max alpha (max bv v1)")
      case True
      from ab_max_step_cut [OF s Suc.prems(2,3) True] step pstep True
      show ?thesis by simp
    next
      case False
      have 1: "- 9999 \<le> max bv v1" using Suc.prems(1) by simp
      have 2: "max bv v1 \<le> max alpha (max bv v1)" by simp
      have 3: "max alpha (max bv v1) < be" using False by arith
      from Suc.hyps(1) [OF k 1 2 3, of "if bv < v1 then Some i else bm"]
      obtain v m where
        l: "max_loop a (i + 1) bd (max alpha (max bv v1)) be d md (max bv v1)
              (if bv < v1 then Some i else bm) = Inr ((v, m), bd)"
        and b: "max bv v1 \<le> v"
        and t: "ab_sound (max alpha (max bv v1)) be v (plain_max a (i + 1) bd d md)"
        by blast
      from ab_max_step_go [OF s Suc.prems(2,3) False b t] step pstep False l
      show ?thesis by simp
    qed
  qed
qed

lemma min_loop_ab:
  assumes child: "\<And>bd0 be. length bd0 = 9 \<Longrightarrow> al < be \<Longrightarrow> be \<le> 9999 \<Longrightarrow>
      \<exists>v m. minimax a bd0 True al be (d + 1) md = Inr ((v, m), bd0)
            \<and> ab_sound al be v (plain_minimax a bd0 True (d + 1) md)"
    and len: "length bd = 9"
  shows "bv \<le> 9999 \<Longrightarrow> beta \<le> bv \<Longrightarrow> al < beta \<Longrightarrow>
     \<exists>v m. min_loop a i bd al beta d md bv bm = Inr ((v, m), bd)
           \<and> v \<le> bv \<and> ab_sound al beta v (plain_min a i bd d md)"
proof (induction k \<equiv> "9 - i" arbitrary: i beta bv bm)
  case 0
  then have "\<not> i < 9" by simp
  with 0 show ?case
    by (simp add: min_loop_end plain_min_end ab_sound_def)
next
  case (Suc k)
  then have i: "i < 9" and k: "k = 9 - (i + 1)" by simp_all
  show ?case
  proof (cases "bd ! i = None")
    case False
    with Suc.hyps(1) [OF k Suc.prems] len i show ?thesis
      by (simp add: min_loop_skip plain_min_skip)
  next
    case True
    from Suc.prems have be: "beta \<le> 9999" by simp
    from child [of "bd[i := Some (human_mark a)]" beta, OF _ Suc.prems(3) be] len
    obtain v1 m1 where
      r: "minimax a (bd[i := Some (human_mark a)]) True al beta (d + 1) md
            = Inr ((v1, m1), bd[i := Some (human_mark a)])"
      and s: "ab_sound al beta v1 (plain_minimax a (bd[i := Some (human_mark a)]) True (d + 1) md)"
      by auto
    note step = min_loop_try [OF len i True r, of bv bm]
    note pstep = plain_min_try [OF len i True, of a d md]
    show ?thesis
    proof (cases "min beta (min bv v1) \<le> al")
      case True
      from ab_min_step_cut [OF s Suc.prems(2,3) True] step pstep True
      show ?thesis by simp
    next
      case False
      have 1: "min bv v1 \<le> 9999" using Suc.prems(1) by simp
      have 2: "min beta (min bv v1) \<le> min bv v1" by arith
      have 3: "al < min beta (min bv v1)" using False by arith
      from Suc.hyps(1) [OF k 1 2 3, of "if v1 < bv then Some i else bm"]
      obtain v m where
        l: "min_loop a (i + 1) bd al (min beta (min bv v1)) d md (min bv v1)
              (if v1 < bv then Some i else bm) = Inr ((v, m), bd)"
        and b: "v \<le> min bv v1"
        and t: "ab_sound al (min beta (min bv v1)) v (plain_min a (i + 1) bd d md)"
        by blast
      from ab_min_step_go [OF s Suc.prems(2,3) False b t] step pstep False l
      show ?thesis by simp
    qed
  qed
qed

lemma minimax_ab:
  "length bd = 9 \<Longrightarrow> - 9999 \<le> al \<Longrightarrow> al < be \<Longrightarrow> be \<le> 9999 \<Longrightarrow>
   \<exists>v m. minimax a bd im al be d md = Inr ((v, m), bd)
         \<and> ab_sound al be v (plain_minimax a bd im d md)"
proof (induction "nat (md - d)" arbitrary: bd im al be d rule: less_induct)
  case less
  from check_winner_total [OF less.prems(1)] obtain w where w: "check_winner bd = Inr w" ..
  show ?case
  proof (cases "w = Some (ai_mark a) \<or> w = Some (human_mark a) \<or> w = Some ''Draw'' \<or> md \<le> d")
    case True
    with w show ?thesis
      by (auto simp add: minimax.simps plain_minimax.simps ab_sound_def)
  next
    case False
    then have lt: "nat (md - (d + 1)) < nat (md - d)" by simp
    show ?thesis
    proof (cases im)
      case True
      have child: "\<And>bd0 al. length bd0 = 9 \<Longrightarrow> - 9999 \<le> al \<Longrightarrow> al < be \<Longrightarrow>
          \<exists>v m. minimax a bd0 False al be (d + 1) md = Inr ((v, m), bd0)
            \<and> ab_sound al be v (plain_minimax a bd0 False (d + 1) md)"
        using less.hyps [OF lt] less.prems(4) by blast
      from max_loop_ab [OF child less.prems(1) _ less.prems(2,3), where i = 0 and bm = None]
      obtain v m where "max_loop a 0 bd al be d md (- 9999) None = Inr ((v, m), bd)"
          and "ab_sound al be v (plain_max a 0 bd d md)" by auto
      with w False True show ?thesis
        by (simp add: minimax.simps plain_minimax.simps)
    next
      case F: False
      have child: "\<And>bd0 be. length bd0 = 9 \<Longrightarrow> al < be \<Longrightarrow> be \<le> 9999 \<Longrightarrow>
          \<exists>v m. minimax a bd0 True al be (d + 1) md = Inr ((v, m), bd0)
            \<and> ab_sound al be v (plain_minimax a bd0 True (d + 1) md)"
        using less.hyps [OF lt] less.prems(2) by blast
      from min_loop_ab [OF child less.prems(1) _ less.prems(4,3), where i = 0 and bm = None]
      obtain v m where "min_loop a 0 bd al be d md 9999 None = Inr ((v, m), bd)"
          and "ab_sound al be v (plain_min a 0 bd d md)" by auto
      with w False F show ?thesis
        by (simp add: minimax.simps plain_minimax.simps)
    qed
  qed
qed

section \<open>Boards in play and bounds on the values\<close>

lemma valid_board_length: "valid_board a bd \<Longrightarrow> length bd = 9"
  by (simp add: valid_board_def)

lemma valid_board_cell:
  "valid_board a bd \<Longrightarrow> c \<in> set bd \<Longrightarrow> c = None \<or> c = Some (ai_mark a) \<or> c = Some (human_mark a)"
  by (auto simp: valid_board_def list_all_iff)

lemma valid_board_update:
  "valid_board a bd \<Longrightarrow> m = ai_mark a \<or> m = human_mark a \<Longrightarrow> valid_board a (bd[i := Some m])"
  unfolding valid_board_def list_all_iff
  by (auto dest!: subsetD [OF set_update_subset_insert])

lemma check_winner_loop_Some:
  "check_winner_loop bd cmbs = Inr (Some c) \<Longrightarrow> \<exists>x<length bd. c = bd ! x \<and> c \<noteq> None"
  by (induction bd cmbs rule: check_winner_loop.induct)
     (auto simp: getitem_def truthy_def split: if_splits sum.splits option.splits)

lemma check_winner_cases:
  assumes "check_winner bd = Inr w"
  shows "(w = None \<and> None \<in> set bd) \<or> w = Some ''Draw'' \<or> (w \<noteq> None \<and> w \<in> set bd)"
proof (cases "check_winner_loop bd WIN_COMBINATIONS")
  case (Inl e)
  with assms show ?thesis by (simp add: check_winner_def)
next
  case (Inr r)
  show ?thesis
  proof (cases r)
    case None
    with Inr assms show ?thesis
      by (simp add: check_winner_def list_all_not_None del: not_None_eq split: if_splits)
  next
    case (Some c)
    with Inr assms have "w = c" by (simp add: check_winner_def)
    with check_winner_loop_Some [of bd WIN_COMBINATIONS c] Inr Some show ?thesis
      by (metis nth_mem)
  qed
qed

lemma in_progress:
  assumes v: "valid_board a bd" and w: "check_winner bd = Inr w"
    and n: "w \<noteq> Some (ai_mark a)" "w \<noteq> Some (human_mark a)" "w \<noteq> Some ''Draw''"
  shows "w = None \<and> (\<exists>j<9. bd ! j = None)"
proof -
  from check_winner_cases [OF w] n valid_board_cell [OF v, of w]
  have "w = None \<and> None \<in> set bd" by auto
  then show ?thesis using valid_board_length [OF v] by (auto simp: in_set_conv_nth)
qed

lemma ex_from: "(\<exists>j. i \<le> j \<and> P j) \<longleftrightarrow> P i \<or> (\<exists>j. i + 1 \<le> j \<and> P j)" for i :: nat
  by (metis Suc_eq_plus1 Suc_leD Suc_le_eq le_eq_less_or_eq order_refl)

lemma all_from: "(\<forall>j. i \<le> j \<longrightarrow> P j) \<longleftrightarrow> P i \<and> (\<forall>j. i + 1 \<le> j \<longrightarrow> P j)" for i :: nat
  by (metis Suc_eq_plus1 Suc_leD Suc_le_eq le_eq_less_or_eq order_refl)

lemma le_plain_max:
  assumes len: "length bd = 9"
  shows "c \<le> plain_max a i bd d md \<longleftrightarrow>
     c \<le> - 9999 \<or> (\<exists>j. i \<le> j \<and> j < 9 \<and> bd ! j = None
                      \<and> c \<le> plain_minimax a (bd[j := Some (ai_mark a)]) False (d + 1) md)"
proof (induction k \<equiv> "9 - i" arbitrary: i)
  case 0
  then have "\<not> i < 9" by simp
  then show ?case by (auto simp: plain_max_end)
next
  case (Suc k)
  then have i: "i < 9" and k: "k = 9 - (i + 1)" by simp_all
  note IH = Suc.hyps(1) [OF k, simplified]
  show ?case
  proof (cases "bd ! i = None")
    case True
    show ?thesis
      by (subst ex_from) (use True i in \<open>auto simp: plain_max_try [OF len i True] IH le_max_iff_disj\<close>)
  next
    case False
    show ?thesis
      by (subst ex_from) (use False i in \<open>auto simp: plain_max_skip [OF len i False] IH\<close>)
  qed
qed

lemma plain_max_le:
  assumes len: "length bd = 9"
  shows "plain_max a i bd d md \<le> c \<longleftrightarrow>
     - 9999 \<le> c \<and> (\<forall>j. i \<le> j \<longrightarrow> j < 9 \<and> bd ! j = None
                      \<longrightarrow> plain_minimax a (bd[j := Some (ai_mark a)]) False (d + 1) md \<le> c)"
proof (induction k \<equiv> "9 - i" arbitrary: i)
  case 0
  then have "\<not> i < 9" by simp
  then show ?case by (auto simp: plain_max_end)
next
  case (Suc k)
  then have i: "i < 9" and k: "k = 9 - (i + 1)" by simp_all
  note IH = Suc.hyps(1) [OF k, simplified]
  show ?case
  proof (cases "bd ! i = None")
    case True
    show ?thesis
      by (subst all_from) (use True i in \<open>auto simp: plain_max_try [OF len i True] IH le_max_iff_disj\<close>)
  next
    case False
    show ?thesis
      by (subst all_from) (use False i in \<open>auto simp: plain_max_skip [OF len i False] IH\<close>)
  qed
qed

lemma plain_min_le:
  assumes len: "length bd = 9"
  shows "plain_min a i bd d md \<le> c \<longleftrightarrow>
     9999 \<le> c \<or> (\<exists>j. i \<le> j \<and> j < 9 \<and> bd ! j = None
                      \<and> plain_minimax a (bd[j := Some (human_mark a)]) True (d + 1) md \<le> c)"
proof (induction k \<equiv> "9 - i" arbitrary: i)
  case 0
  then have "\<not> i < 9" by simp
  then show ?case by (auto simp: plain_min_end)
next
  case (Suc k)
  then have i: "i < 9" and k: "k = 9 - (i + 1)" by simp_all
  note IH = Suc.hyps(1) [OF k, simplified]
  show ?case
  proof (cases "bd ! i = None")
    case True
    show ?thesis
      by (subst ex_from) (use True i in \<open>auto simp: plain_min_try [OF len i True] IH min_le_iff_disj\<close>)
  next
    case False
    show ?thesis
      by (subst ex_from) (use False i in \<open>auto simp: plain_min_skip [OF len i False] IH\<close>)
  qed
qed

lemma le_plain_min:
  assumes len: "length bd = 9"
  shows "c \<le> plain_min a i bd d md \<longleftrightarrow>
     c \<le> 9999 \<and> (\<forall>j. i \<le> j \<longrightarrow> j < 9 \<and> bd ! j = None
                      \<longrightarrow> c \<le> plain_minimax a (bd[j := Some (human_mark a)]) True (d + 1) md)"
proof (induction k \<equiv> "9 - i" arbitrary: i)
  case 0
  then have "\<not> i < 9" by simp
  then show ?case by (auto simp: plain_min_end)
next
  case (Suc k)
  then have i: "i < 9" and k: "k = 9 - (i + 1)" by simp_all
  note IH = Suc.hyps(1) [OF k, simplified]
  show ?case
  proof (cases "bd ! i = None")
    case True
    show ?thesis
      by (subst all_from) (use True i in \<open>auto simp: plain_min_try [OF len i True] IH min_le_iff_disj\<close>)
  next
    case False
    show ?thesis
      by (subst all_from) (use False i in \<open>auto simp: plain_min_skip [OF len i False] IH\<close>)
  qed
qed

lemma plain_minimax_bounds:
  "valid_board a bd \<Longrightarrow> 0 \<le> d \<Longrightarrow> d \<le> 100 \<Longrightarrow> md \<le> 100 \<Longrightarrow>
   - 100 \<le> plain_minimax a bd im d md \<and> plain_minimax a bd im d md \<le> 100"
proof (induction "nat (md - d)" arbitrary: bd im d rule: less_induct)
  case less
  note len = valid_board_length [OF less.prems(1)]
  from check_winner_total [OF len] obtain w where w: "check_winner bd = Inr w" ..
  show ?case
  proof (cases "w = Some (ai_mark a) \<or> w = Some (human_mark a) \<or> w = Some ''Draw'' \<or> md \<le> d")
    case True
    with w less.prems show ?thesis
      by (auto simp add: plain_minimax.simps)
  next
    case False
    then have lt: "nat (md - (d + 1)) < nat (md - d)" and d1: "0 \<le> d + 1" "d + 1 \<le> 100"
      using less.prems by simp_all
    from in_progress [OF less.prems(1) w] False obtain j where j: "j < 9" "bd ! j = None"
      by auto
    have child: "\<And>bd0 im0. valid_board a bd0 \<Longrightarrow>
        - 100 \<le> plain_minimax a bd0 im0 (d + 1) md \<and> plain_minimax a bd0 im0 (d + 1) md \<le> 100"
      using less.hyps [OF lt _ d1 less.prems(4)] by blast
    have cA: "\<And>j. - 100 \<le> plain_minimax a (bd[j := Some (ai_mark a)]) False (d + 1) md
        \<and> plain_minimax a (bd[j := Some (ai_mark a)]) False (d + 1) md \<le> 100"
      by (rule child) (simp add: valid_board_update [OF less.prems(1)])
    have cH: "\<And>j. - 100 \<le> plain_minimax a (bd[j := Some (human_mark a)]) True (d + 1) md
        \<and> plain_minimax a (bd[j := Some (human_mark a)]) True (d + 1) md \<le> 100"
      by (rule child) (simp add: valid_board_update [OF less.prems(1)])
    have "- 100 \<le> plain_max a 0 bd d md" using j cA by (auto simp: le_plain_max [OF len])
    moreover have "plain_max a 0 bd d md \<le> 100" using cA by (simp add: plain_max_le [OF len])
    moreover have "- 100 \<le> plain_min a 0 bd d md" using cH by (simp add: le_plain_min [OF len])
    moreover have "plain_min a 0 bd d md \<le> 100" using j cH by (auto simp: plain_min_le [OF len])
    ultimately show ?thesis using w False
      by (simp add: plain_minimax.simps)
  qed
qed

lemma max_loop_root:
  assumes len: "length bd = 9"
    and bnd: "\<And>j. j < 9 \<Longrightarrow> bd ! j = None \<Longrightarrow>
        - 9999 < plain_minimax a (bd[j := Some (ai_mark a)]) False (d + 1) md
        \<and> plain_minimax a (bd[j := Some (ai_mark a)]) False (d + 1) md < 9999"
  shows "- 9999 \<le> bv \<Longrightarrow> bv < 9999 \<Longrightarrow>
     \<exists>v m. max_loop a i bd bv 9999 d md bv bm = Inr ((v, m), bd)
       \<and> v = max bv (plain_max a i bd d md)
       \<and> (if bv < plain_max a i bd d md
          then \<exists>j. m = Some j \<and> i \<le> j \<and> j < 9 \<and> bd ! j = None
                 \<and> plain_minimax a (bd[j := Some (ai_mark a)]) False (d + 1) md = plain_max a i bd d md
                 \<and> (\<forall>j'. i \<le> j' \<and> j' < j \<and> bd ! j' = None \<longrightarrow>
                       plain_minimax a (bd[j' := Some (ai_mark a)]) False (d + 1) md
                       < plain_minimax a (bd[j := Some (ai_mark a)]) False (d + 1) md)
          else m = bm)"
proof (induction k \<equiv> "9 - i" arbitrary: i bv bm)
  case 0
  then have "\<not> i < 9" by simp
  with 0 show ?case
    by (simp add: max_loop_end plain_max_end)
next
  case (Suc k)
  then have i: "i < 9" and k: "k = 9 - (i + 1)" by simp_all
  show ?case
  proof (cases "bd ! i = None")
    case False
    from Suc.hyps(1) [OF k Suc.prems, of bm]
    obtain v m where l: "max_loop a (i + 1) bd bv 9999 d md bv bm = Inr ((v, m), bd)"
      and v: "v = max bv (plain_max a (i + 1) bd d md)"
      and m: "if bv < plain_max a (i + 1) bd d md
          then \<exists>j. m = Some j \<and> i + 1 \<le> j \<and> j < 9 \<and> bd ! j = None
                 \<and> plain_minimax a (bd[j := Some (ai_mark a)]) False (d + 1) md = plain_max a (i + 1) bd d md
                 \<and> (\<forall>j'. i + 1 \<le> j' \<and> j' < j \<and> bd ! j' = None \<longrightarrow>
                       plain_minimax a (bd[j' := Some (ai_mark a)]) False (d + 1) md
                       < plain_minimax a (bd[j := Some (ai_mark a)]) False (d + 1) md)
          else m = bm"
      by blast
    have e: "\<And>j'. (i \<le> j' \<and> bd ! j' = None) = (i + 1 \<le> j' \<and> bd ! j' = None)"
      using False by (metis Suc_eq_plus1 Suc_le_eq le_eq_less_or_eq Suc_leD)
    show ?thesis
    proof (cases "bv < plain_max a (i + 1) bd d md")
      case True
      with m obtain j where j: "m = Some j" "i + 1 \<le> j" "j < 9" "bd ! j = None"
          "plain_minimax a (bd[j := Some (ai_mark a)]) False (d + 1) md = plain_max a (i + 1) bd d md"
          "\<forall>j'. i + 1 \<le> j' \<and> j' < j \<and> bd ! j' = None \<longrightarrow>
                       plain_minimax a (bd[j' := Some (ai_mark a)]) False (d + 1) md
                       < plain_minimax a (bd[j := Some (ai_mark a)]) False (d + 1) md"
        by auto
      have q: "\<forall>j'. i \<le> j' \<and> j' < j \<and> bd ! j' = None \<longrightarrow>
                       plain_minimax a (bd[j' := Some (ai_mark a)]) False (d + 1) md
                       < plain_minimax a (bd[j := Some (ai_mark a)]) False (d + 1) md"
        using j(6) e by blast
      from j(2) have "i \<le> j" by simp
      with l v True j q show ?thesis
        by (simp add: max_loop_skip [OF len i False] plain_max_skip [OF len i False])
    next
      case F: False
      with l v m show ?thesis
        by (simp add: max_loop_skip [OF len i False] plain_max_skip [OF len i False])
    qed
  next
    case True
    let ?V = "\<lambda>j. plain_minimax a (bd[j := Some (ai_mark a)]) False (d + 1) md"
    from bnd [OF i True] have Vb: "- 9999 < ?V i" "?V i < 9999" by simp_all
    from minimax_ab [of "bd[i := Some (ai_mark a)]" bv 9999 a False "d + 1" md] len Suc.prems
    obtain v1 m1 where
      r: "minimax a (bd[i := Some (ai_mark a)]) False bv 9999 (d + 1) md
            = Inr ((v1, m1), bd[i := Some (ai_mark a)])"
      and s: "ab_sound bv 9999 v1 (?V i)"
      by auto
    from s Vb have nocut: "\<not> 9999 \<le> max bv (max bv v1)"
      using Suc.prems by (auto simp: ab_sound_def)
    have al: "max bv (max bv v1) = max bv v1" by simp
    note step = max_loop_try [OF len i True r, of bv bm, unfolded al]
    note pstep = plain_max_try [OF len i True, of a d md]
    have 1: "- 9999 \<le> max bv v1" using Suc.prems by simp
    have 2: "max bv v1 < 9999" using nocut by arith
    from Suc.hyps(1) [OF k 1 2, of "if bv < v1 then Some i else bm"]
    obtain v m where l: "max_loop a (i + 1) bd (max bv v1) 9999 d md (max bv v1)
              (if bv < v1 then Some i else bm) = Inr ((v, m), bd)"
      and v: "v = max (max bv v1) (plain_max a (i + 1) bd d md)"
      and m: "if max bv v1 < plain_max a (i + 1) bd d md
          then \<exists>j. m = Some j \<and> i + 1 \<le> j \<and> j < 9 \<and> bd ! j = None
                 \<and> ?V j = plain_max a (i + 1) bd d md
                 \<and> (\<forall>j'. i + 1 \<le> j' \<and> j' < j \<and> bd ! j' = None \<longrightarrow> ?V j' < ?V j)
          else m = (if bv < v1 then Some i else bm)"
      by blast
    from step nocut l al have res: "max_loop a i bd bv 9999 d md bv bm = Inr ((v, m), bd)"
      by simp
    have split: "\<And>j j'. i + 1 \<le> j \<Longrightarrow> (i \<le> j' \<and> j' < j \<and> bd ! j' = None) =
        (j' = i \<or> (i + 1 \<le> j' \<and> j' < j \<and> bd ! j' = None))"
      using True by (metis Suc_eq_plus1 Suc_le_eq le_eq_less_or_eq Suc_leD)
    show ?thesis
    proof (cases "v1 \<le> bv")
      case A: True
      with s have Vi: "?V i \<le> bv" by (auto simp: ab_sound_def)
      from A have mb: "max bv v1 = bv" by simp
      show ?thesis
      proof (cases "bv < plain_max a (i + 1) bd d md")
        case T: True
        with m mb obtain j where j: "m = Some j" "i + 1 \<le> j" "j < 9" "bd ! j = None"
          "?V j = plain_max a (i + 1) bd d md"
          "\<forall>j'. i + 1 \<le> j' \<and> j' < j \<and> bd ! j' = None \<longrightarrow> ?V j' < ?V j"
          by auto
        have "\<forall>j'. i \<le> j' \<and> j' < j \<and> bd ! j' = None \<longrightarrow> ?V j' < ?V j"
          unfolding split [OF j(2)] using j(5,6) T Vi by auto
        moreover from j(2) have "i \<le> j" by simp
        ultimately show ?thesis using res v mb T Vi j pstep
          by (auto simp: max_def)
      next
        case F: False
        with res v m mb Vi pstep A show ?thesis by (auto simp: max_def)
      qed
    next
      case B: False
      with s Vb have Vi: "v1 = ?V i" and gt: "bv < v1"
        using Suc.prems by (auto simp: ab_sound_def)
      from B have mb: "max bv v1 = v1" by simp
      show ?thesis
      proof (cases "v1 < plain_max a (i + 1) bd d md")
        case T: True
        with m mb obtain j where j: "m = Some j" "i + 1 \<le> j" "j < 9" "bd ! j = None"
          "?V j = plain_max a (i + 1) bd d md"
          "\<forall>j'. i + 1 \<le> j' \<and> j' < j \<and> bd ! j' = None \<longrightarrow> ?V j' < ?V j"
          by auto
        have "\<forall>j'. i \<le> j' \<and> j' < j \<and> bd ! j' = None \<longrightarrow> ?V j' < ?V j"
          unfolding split [OF j(2)] using j(5,6) T Vi by auto
        moreover from j(2) have "i \<le> j" by simp
        ultimately show ?thesis using res v mb T Vi gt j pstep
          by (auto simp: max_def)
      next
        case F: False
        with m mb gt have "m = Some i" by simp
        with res v mb F Vi gt pstep i True show ?thesis
          by (auto simp: max_def)
      qed
    qed
  qed
qed

section \<open>The move chosen at the root\<close>

lemma minimax_root:
  assumes v: "valid_board a cs" and w: "check_winner cs = Inr None"
    and md: "0 < md" "md \<le> 100"
  shows "\<exists>m. minimax a cs True (- 9999) 9999 0 md = Inr ((plain_minimax a cs True 0 md, Some m), cs)
     \<and> m < 9 \<and> cs ! m = None
     \<and> plain_minimax a (cs[m := Some (ai_mark a)]) False 1 md = plain_minimax a cs True 0 md
     \<and> (\<forall>j<9. cs ! j = None \<longrightarrow>
           plain_minimax a (cs[j := Some (ai_mark a)]) False 1 md
           \<le> plain_minimax a (cs[m := Some (ai_mark a)]) False 1 md)
     \<and> (\<forall>j<m. cs ! j = None \<longrightarrow>
           plain_minimax a (cs[j := Some (ai_mark a)]) False 1 md
           < plain_minimax a (cs[m := Some (ai_mark a)]) False 1 md)"
proof -
  note len = valid_board_length [OF v]
  let ?V = "\<lambda>j. plain_minimax a (cs[j := Some (ai_mark a)]) False (0 + 1) md"
  have bnd: "\<And>j. - 100 \<le> ?V j \<and> ?V j \<le> 100"
    by (rule plain_minimax_bounds) (simp_all add: valid_board_update [OF v] md)
  have bnd': "- 9999 < ?V j \<and> ?V j < 9999" if "j < 9" "cs ! j = None" for j
    using bnd [of j] by arith
  from in_progress [OF v w] obtain j0 where j0: "j0 < 9" "cs ! j0 = None" by auto
  have P: "plain_minimax a cs True 0 md = plain_max a 0 cs 0 md"
    using w md by (simp add: plain_minimax.simps)
  have M: "minimax a cs True (- 9999) 9999 0 md = max_loop a 0 cs (- 9999) 9999 0 md (- 9999) None"
    using w md by (simp add: minimax.simps)
  have "- 100 \<le> plain_max a 0 cs 0 md"
    using j0 bnd [of j0] by (auto simp: le_plain_max [OF len])
  then have gt: "- 9999 < plain_max a 0 cs 0 md" by simp
  from max_loop_root [OF len bnd', where bv = "- 9999" and i = 0 and bm = None] gt
  obtain vv m where l: "max_loop a 0 cs (- 9999) 9999 0 md (- 9999) None = Inr ((vv, Some m), cs)"
    and vv: "vv = max (- 9999) (plain_max a 0 cs 0 md)"
    and m: "m < 9" "cs ! m = None" "?V m = plain_max a 0 cs 0 md"
      "\<forall>j'. 0 \<le> j' \<and> j' < m \<and> cs ! j' = None \<longrightarrow> ?V j' < ?V m"
    by auto
  from vv gt have vv': "vv = plain_max a 0 cs 0 md" by simp
  have "plain_max a 0 cs 0 md \<le> ?V m" using m(3) by simp
  then have all: "\<forall>j<9. cs ! j = None \<longrightarrow> ?V j \<le> ?V m"
    by (simp add: plain_max_le [OF len])
  from l vv' m all P M show ?thesis by auto
qed


lemma available_nonempty:
  assumes "length cs = 9" "j < 9" "cs ! j = None"
  shows "filter (\<lambda>i. cs ! i = None) [0..<length cs] \<noteq> []"
  using assms by (auto simp: filter_empty_conv)

text \<open>
  C6. On a board in play (nine cells holding only the two marks, no completed line, at
  least one empty cell), at any difficulty other than Easy and with the random branch not
  taken, \<open>best_move\<close> returns the same index whatever the random source would deliver: the
  lowest index among the empty cells whose move has the greatest minimax value.
\<close>

theorem best_move_lowest_optimal:
  assumes v: "valid_board a cs" and w: "check_winner cs = Inr None"
    and e: "difficulty a \<noteq> ''Easy''"
  shows "\<exists>m. (\<forall>k. best_move a False k cs = Inr (Some m)) \<and> m < 9 \<and> cs ! m = None
     \<and> (\<forall>j<9. cs ! j = None \<longrightarrow> move_value a cs j \<le> move_value a cs m)
     \<and> (\<forall>j<m. cs ! j = None \<longrightarrow> move_value a cs j < move_value a cs m)"
proof -
  let ?md = "if difficulty a = ''Medium'' then 4 else 9 :: int"
  have md: "0 < ?md" "?md \<le> 100" by simp_all
  from minimax_root [OF v w md] obtain m where
    r: "minimax a cs True (- 9999) 9999 0 ?md = Inr ((plain_minimax a cs True 0 ?md, Some m), cs)"
    and m: "m < 9" "cs ! m = None"
      "\<forall>j<9. cs ! j = None \<longrightarrow> move_value a cs j \<le> move_value a cs m"
      "\<forall>j<m. cs ! j = None \<longrightarrow> move_value a cs j < move_value a cs m"
    unfolding move_value_def by blast
  from available_nonempty [OF valid_board_length [OF v] m(1,2)]
  have av: "filter (\<lambda>i. cs ! i = None) [0..<length cs] \<noteq> []" .
  have "best_move a False k cs = Inr (Some m)" for k
    using r av e by (auto simp: best_move_def best_move_st_def Let_def split: if_splits)
  with m show ?thesis by blast
qed

theorem best_move_lowest_optimal_witness:
  "\<exists>m. (\<forall>k. best_move (AI_init PLAYER_O PLAYER_X ''Medium'') False k
              [Some PLAYER_X, None, None, None, Some PLAYER_O, None, None, None, Some PLAYER_X]
            = Inr (Some m))
     \<and> m < 9
     \<and> [Some PLAYER_X, None, None, None, Some PLAYER_O, None, None, None, Some PLAYER_X] ! m = None
     \<and> (\<forall>j<9. [Some PLAYER_X, None, None, None, Some PLAYER_O, None, None, None, Some PLAYER_X] ! j = None \<longrightarrow>
           move_value (AI_init PLAYER_O PLAYER_X ''Medium'')
             [Some PLAYER_X, None, None, None, Some PLAYER_O, None, None, None, Some PLAYER_X] j
           \<le> move_value (AI_init PLAYER_O PLAYER_X ''Medium'')
             [Some PLAYER_X, None, None, None, Some PLAYER_O, None, None, None, Some PLAYER_X] m)
     \<and> (\<forall>j<m. [Some PLAYER_X, None, None, None, Some PLAYER_O, None, None, None, Some PLAYER_X] ! j = None \<longrightarrow>
           move_value (AI_init PLAYER_O PLAYER_X ''Medium'')
             [Some PLAYER_X, None, None, None, Some PLAYER_O, None, None, None, Some PLAYER_X] j
           < move_value (AI_init PLAYER_O PLAYER_X ''Medium'')
             [Some PLAYER_X, None, None, None, Some PLAYER_O, None, None, None, Some PLAYER_X] m)"
proof -
  have 1: "valid_board (AI_init PLAYER_O PLAYER_X ''Medium'')
      [Some PLAYER_X, None, None, None, Some PLAYER_O, None, None, None, Some PLAYER_X]"
    by code_simp
  have 2: "check_winner
      [Some PLAYER_X, None, None, None, Some PLAYER_O, None, None, None, Some PLAYER_X] = Inr None"
    by code_simp
  have 3: "difficulty (AI_init PLAYER_O PLAYER_X ''Medium'') \<noteq> ''Easy''"
    by code_simp
  show ?thesis using best_move_lowest_optimal [OF 1 2 3] .
qed

text \<open>
  On a board where a line is already complete, the Medium path gets no move from the search
  and falls back to \<open>random.choice\<close>: two calls on the same board can return different cells.
\<close>

theorem best_move_medium_depends_on_choice:
  "best_move (AI_init PLAYER_O PLAYER_X ''Medium'') False 0
     [Some PLAYER_X, Some PLAYER_X, Some PLAYER_X, Some PLAYER_O, Some PLAYER_O,
      None, None, None, None]
   \<noteq> best_move (AI_init PLAYER_O PLAYER_X ''Medium'') False 1
     [Some PLAYER_X, Some PLAYER_X, Some PLAYER_X, Some PLAYER_O, Some PLAYER_O,
      None, None, None, None]"
  by code_simp

section \<open>When the search returns no move\<close>

lemma choice_available:
  assumes "filter (\<lambda>i. cs ! i = None) [0..<length cs] \<noteq> []"
  shows "choice k (filter (\<lambda>i. cs ! i = None) [0..<length cs]) < length cs
     \<and> cs ! choice k (filter (\<lambda>i. cs ! i = None) [0..<length cs]) = None"
proof -
  let ?av = "filter (\<lambda>i. cs ! i = None) [0..<length cs]"
  from assms have "k mod length ?av < length ?av" by simp
  then have "choice k ?av \<in> set ?av" unfolding choice_def by (rule nth_mem)
  then show ?thesis by simp
qed

lemma no_line_in_play:
  assumes "check_winner_loop cs WIN_COMBINATIONS = Inr None" "j < length cs" "cs ! j = None"
  shows "check_winner cs = Inr None"
proof -
  from assms(2,3) have "None \<in> set cs" by (metis nth_mem)
  with assms(1) show ?thesis
    by (simp add: check_winner_def list_all_not_None del: not_None_eq)
qed

lemma best_move_full_board:
  assumes "\<forall>j<length cs. cs ! j \<noteq> None"
  shows "best_move a rnd_lt k cs = Inr None"
proof -
  from assms have "filter (\<lambda>i. cs ! i = None) [0..<length cs] = []"
    by (auto simp: filter_empty_conv)
  then show ?thesis by (simp add: best_move_def best_move_st_def)
qed

lemma best_move_in_play:
  assumes v: "valid_board a cs" and w: "check_winner cs = Inr None"
  shows "\<exists>m. best_move a rnd_lt k cs = Inr (Some m) \<and> m < 9 \<and> cs ! m = None"
proof -
  note len = valid_board_length [OF v]
  let ?av = "filter (\<lambda>i. cs ! i = None) [0..<length cs]"
  from in_progress [OF v w] obtain j where j: "j < 9" "cs ! j = None" by auto
  from available_nonempty [OF len j] have av: "?av \<noteq> []" .
  from choice_available [OF av, of k] len
  have ch: "choice k ?av < 9" "cs ! choice k ?av = None" by simp_all
  have md: "(0::int) < 4" "(4::int) \<le> 100" "(0::int) < 9" "(9::int) \<le> 100" by simp_all
  from minimax_root [OF v w md(1,2)] obtain m4 where
    m4: "minimax a cs True (- 9999) 9999 0 4 = Inr ((plain_minimax a cs True 0 4, Some m4), cs)"
      "m4 < 9" "cs ! m4 = None" by blast
  from minimax_root [OF v w md(3,4)] obtain m9 where
    m9: "minimax a cs True (- 9999) 9999 0 9 = Inr ((plain_minimax a cs True 0 9, Some m9), cs)"
      "m9 < 9" "cs ! m9 = None" by blast
  show ?thesis
  proof (cases "difficulty a = ''Easy'' \<or> (difficulty a = ''Medium'' \<and> rnd_lt)")
    case True
    with av ch show ?thesis
      by (auto simp: best_move_def best_move_st_def Let_def)
  next
    case False
    show ?thesis
    proof (cases "difficulty a = ''Medium''")
      case True
      with False av m4 show ?thesis
        by (auto simp: best_move_def best_move_st_def Let_def)
    next
      case F: False
      with False av m9 show ?thesis
        by (auto simp: best_move_def best_move_st_def Let_def)
    qed
  qed
qed

text \<open>
  C5. On a board of the two marks on which no line is complete, at every difficulty and
  whatever the random source delivers, \<open>best_move\<close> returns \<open>None\<close> exactly when no cell is
  empty; when some cell is empty it returns the index of an empty cell.
\<close>

theorem best_move_none_only_on_full_board:
  assumes "valid_board a cs" and "check_winner_loop cs WIN_COMBINATIONS = Inr None"
  shows "(best_move a rnd_lt k cs = Inr None \<longleftrightarrow> (\<forall>j<9. cs ! j \<noteq> None))
     \<and> ((\<exists>j<9. cs ! j = None) \<longrightarrow>
          (\<exists>m. best_move a rnd_lt k cs = Inr (Some m) \<and> m < 9 \<and> cs ! m = None))"
proof (cases "\<exists>j<9. cs ! j = None")
  case True
  then obtain j where j: "j < 9" "cs ! j = None" by blast
  note len = valid_board_length [OF assms(1)]
  from no_line_in_play [OF assms(2), of j] j len have "check_winner cs = Inr None" by simp
  from best_move_in_play [OF assms(1) this, of rnd_lt k] True show ?thesis by auto
next
  case False
  note len = valid_board_length [OF assms(1)]
  from False len have "\<forall>j<length cs. cs ! j \<noteq> None" by simp
  from best_move_full_board [OF this, of a rnd_lt k] False show ?thesis by simp
qed

theorem best_move_none_only_on_full_board_witness:
  "\<exists>m. best_move (AI_init PLAYER_O PLAYER_X ''Easy'') True 7
          [Some PLAYER_X, None, Some PLAYER_O, None, Some PLAYER_X, None, None, None, None]
        = Inr (Some m)
      \<and> m < 9
      \<and> [Some PLAYER_X, None, Some PLAYER_O, None, Some PLAYER_X, None, None, None, None] ! m = None"
proof -
  have 1: "valid_board (AI_init PLAYER_O PLAYER_X ''Easy'')
      [Some PLAYER_X, None, Some PLAYER_O, None, Some PLAYER_X, None, None, None, None]"
    by code_simp
  have 2: "check_winner_loop
      [Some PLAYER_X, None, Some PLAYER_O, None, Some PLAYER_X, None, None, None, None]
      WIN_COMBINATIONS = Inr None"
    by code_simp
  have 3: "\<exists>j<9. [Some PLAYER_X, None, Some PLAYER_O, None, Some PLAYER_X, None, None, None, None] ! j
      = None"
    by (rule exI [of _ 1]) simp
  show ?thesis using best_move_none_only_on_full_board [OF 1 2, of True 7] 3 by blast
qed

section \<open>Safe positions and the reference value\<close>

lemma set_move_order: "set move_order = {i. i < 9}"
  by (auto simp: move_order_def)

lemma safe_all_iff:
  "safe_all a n bd is \<longleftrightarrow>
     (\<forall>i\<in>set is. bd ! i = None \<longrightarrow> safe a n False (bd[i := Some (human_mark a)]))"
  by (induction "is") auto

lemma safe_ex_iff:
  "safe_ex a n bd is \<longleftrightarrow>
     (\<exists>i\<in>set is. bd ! i = None \<and> safe a n True (bd[i := Some (ai_mark a)]))"
  by (induction "is") auto

lemma empties_update:
  "i < length bd \<Longrightarrow> bd ! i = None \<Longrightarrow> Suc (empties (bd[i := Some m])) = empties bd"
  unfolding empties_def
proof (induction bd arbitrary: i)
  case Nil
  then show ?case by simp
next
  case (Cons c bd)
  then show ?case by (cases i) auto
qed

lemma empties_pos: "None \<in> set bd \<Longrightarrow> 0 < empties bd"
  unfolding empties_def by (simp add: filter_empty_conv)

lemma empties_zero: "empties bd = 0 \<Longrightarrow> None \<notin> set bd"
  using empties_pos [of bd] by auto

lemma empties_le_length: "empties bd \<le> length bd"
  unfolding empties_def by simp

lemma terminal_sign:
  assumes w: "check_winner bd = Inr w"
    and t: "w = Some (ai_mark a) \<or> w = Some (human_mark a) \<or> w = Some ''Draw''"
    and d: "0 \<le> d" "d < 100"
  shows "safe a n h bd \<longleftrightarrow> 0 \<le> plain_minimax a bd im d md"
  using assms by (cases n) (auto simp: plain_minimax.simps)

lemma safe_iff_plain:
  "valid_board a bd \<Longrightarrow> empties bd \<le> n \<Longrightarrow> 0 \<le> d \<Longrightarrow> d + int (empties bd) \<le> md \<Longrightarrow> md < 100
   \<Longrightarrow> safe a n h bd \<longleftrightarrow> 0 \<le> plain_minimax a bd (\<not> h) d md"
proof (induction n arbitrary: bd d h)
  case 0
  note len = valid_board_length [OF "0.prems"(1)]
  from check_winner_total [OF len] obtain w where w: "check_winner bd = Inr w" ..
  from "0.prems"(2) have "None \<notin> set bd" by (simp add: empties_zero)
  with check_winner_cases [OF w] valid_board_cell [OF "0.prems"(1), of w]
  have t: "w = Some (ai_mark a) \<or> w = Some (human_mark a) \<or> w = Some ''Draw''" by auto
  from "0.prems" have "d < 100" by simp
  from terminal_sign [OF w t "0.prems"(3) this] show ?case .
next
  case (Suc n)
  note v = Suc.prems(1)
  note len = valid_board_length [OF v]
  from check_winner_total [OF len] obtain w where w: "check_winner bd = Inr w" ..
  from Suc.prems have d100: "d < 100" by simp
  show ?case
  proof (cases "w = Some (ai_mark a) \<or> w = Some (human_mark a) \<or> w = Some ''Draw''")
    case True
    from terminal_sign [OF w True Suc.prems(3) d100] show ?thesis .
  next
    case False
    with in_progress [OF v w] obtain j where wn: "w = None" and j: "j < 9" "bd ! j = None" by auto
    from j len have "None \<in> set bd" by (metis nth_mem)
    then have pos: "0 < empties bd" by (rule empties_pos)
    with Suc.prems have dm: "\<not> md \<le> d" by simp
    have child: "safe a n h' (bd[i := Some m]) \<longleftrightarrow> 0 \<le> plain_minimax a (bd[i := Some m]) (\<not> h') (d + 1) md"
      if "i < 9" "bd ! i = None" "m = ai_mark a \<or> m = human_mark a" for i m h'
    proof -
      from that len have e: "Suc (empties (bd[i := Some m])) = empties bd"
        by (simp add: empties_update)
      have 1: "valid_board a (bd[i := Some m])" using v that(3) by (rule valid_board_update)
      have 2: "empties (bd[i := Some m]) \<le> n" using e Suc.prems(2) by simp
      have 3: "0 \<le> d + 1" using Suc.prems(3) by simp
      have 4: "d + 1 + int (empties (bd[i := Some m])) \<le> md" using e Suc.prems(4) by simp
      from Suc.IH [OF 1 2 3 4 Suc.prems(5)] show ?thesis .
    qed
    show ?thesis
    proof (cases h)
      case True
      have "safe a (Suc n) h bd \<longleftrightarrow> safe_all a n bd move_order"
        using w False True by simp
      also have "\<dots> \<longleftrightarrow> (\<forall>i<9. bd ! i = None \<longrightarrow> safe a n False (bd[i := Some (human_mark a)]))"
        by (simp add: safe_all_iff set_move_order)
      also have "\<dots> \<longleftrightarrow> (\<forall>i<9. bd ! i = None \<longrightarrow>
          0 \<le> plain_minimax a (bd[i := Some (human_mark a)]) True (d + 1) md)"
        using child [of _ "human_mark a" False] by auto
      also have "\<dots> \<longleftrightarrow> 0 \<le> plain_min a 0 bd d md"
        by (auto simp add: le_plain_min [OF len])
      also have "\<dots> \<longleftrightarrow> 0 \<le> plain_minimax a bd (\<not> h) d md"
        using w False True dm by (simp add: plain_minimax.simps)
      finally show ?thesis .
    next
      case F: False
      have "safe a (Suc n) h bd \<longleftrightarrow> safe_ex a n bd move_order"
        using w False F by simp
      also have "\<dots> \<longleftrightarrow> (\<exists>i<9. bd ! i = None \<and> safe a n True (bd[i := Some (ai_mark a)]))"
        by (auto simp add: safe_ex_iff set_move_order)
      also have "\<dots> \<longleftrightarrow> (\<exists>i<9. bd ! i = None \<and>
          0 \<le> plain_minimax a (bd[i := Some (ai_mark a)]) False (d + 1) md)"
        using child [of _ "ai_mark a" True] by auto
      also have "\<dots> \<longleftrightarrow> 0 \<le> plain_max a 0 bd d md"
        by (auto simp add: le_plain_max [OF len])
      also have "\<dots> \<longleftrightarrow> 0 \<le> plain_minimax a bd (\<not> h) d md"
        using w False F dm by (simp add: plain_minimax.simps)
      finally show ?thesis .
    qed
  qed
qed

section \<open>One move of each side keeps the position safe\<close>

lemma human_step:
  assumes v: "valid_board a bd" and w: "check_winner bd = Inr None"
    and s: "safe a 9 True bd" and i: "i < 9" "bd ! i = None"
  shows "safe a 9 False (bd[i := Some (human_mark a)])"
proof -
  note len = valid_board_length [OF v]
  let ?c = "bd[i := Some (human_mark a)]"
  from safe.simps(2) [of a 8 True bd] w s have "safe_all a 8 bd move_order" by simp
  with i have s8: "safe a 8 False ?c" by (simp add: safe_all_iff set_move_order)
  have vc: "valid_board a ?c" using v by (rule valid_board_update) simp
  from empties_update [of i bd "human_mark a"] i len empties_le_length [of bd]
  have e: "empties ?c \<le> 8" by simp
  from e have e9: "empties ?c \<le> 9" and d: "0 + int (empties ?c) \<le> 9" by simp_all
  from safe_iff_plain [OF vc e _ d, of False] s8
  have "0 \<le> plain_minimax a ?c True 0 9" by simp
  with safe_iff_plain [OF vc e9 _ d, of False] show ?thesis by simp
qed

lemma engine_step:
  assumes v: "valid_board a bd" and w: "check_winner bd = Inr None"
    and s: "safe a 9 False bd"
    and dif: "difficulty a \<noteq> ''Easy''" "difficulty a \<noteq> ''Medium''"
  shows "\<exists>m. best_move a rnd_lt k bd = Inr (Some m) \<and> m < 9 \<and> bd ! m = None
     \<and> safe a 9 True (bd[m := Some (ai_mark a)])"
proof -
  note len = valid_board_length [OF v]
  from empties_le_length [of bd] len have e: "empties bd \<le> 9" "0 + int (empties bd) \<le> 9"
    by simp_all
  from safe_iff_plain [OF v e(1) _ e(2), of False] s
  have p: "0 \<le> plain_minimax a bd True 0 9" by simp
  from minimax_root [OF v w, of 9] obtain m where
    r: "minimax a bd True (- 9999) 9999 0 9 = Inr ((plain_minimax a bd True 0 9, Some m), bd)"
    and m: "m < 9" "bd ! m = None"
    and eq: "plain_minimax a (bd[m := Some (ai_mark a)]) False 1 9 = plain_minimax a bd True 0 9"
    by auto
  let ?c = "bd[m := Some (ai_mark a)]"
  from available_nonempty [OF len m]
  have av: "filter (\<lambda>i. bd ! i = None) [0..<length bd] \<noteq> []" .
  have bm: "best_move a rnd_lt k bd = Inr (Some m)"
    using r av dif by (simp add: best_move_def best_move_st_def Let_def)
  have vc: "valid_board a ?c" using v by (rule valid_board_update) simp
  from empties_update [of m bd "ai_mark a"] m len e(1)
  have ec: "empties ?c \<le> 9" "1 + int (empties ?c) \<le> 9" by simp_all
  from safe_iff_plain [OF vc ec(1) _ ec(2), of True] eq p
  have "safe a 9 True ?c" by simp
  with bm m show ?thesis by blast
qed

lemma winner_of_check_winner:
  "check_winner (cells b) = Inr w \<Longrightarrow> \<exists>cmb. winner b = Inr (w, cmb)"
  by (auto simp add: check_winner_def winner_def check_winner_loop_winner_loop
           split: sum.splits option.splits if_splits)

lemma check_end_in_play:
  "check_winner (cells (gboard g)) = Inr None \<Longrightarrow> check_end g = Inr g"
  using winner_of_check_winner [of "gboard g" None] by (auto simp: check_end_def)

lemma check_end_over:
  assumes "check_winner (cells (gboard g)) = Inr (Some s)" "s \<noteq> PLAYER_X"
  shows "\<exists>g'. check_end g = Inr g' \<and> mode g' = ''gameover'' \<and> gwinner g' = Some s
     \<and> score_Player g' = score_Player g \<and> cells (gboard g') = cells (gboard g)"
  using winner_of_check_winner [of "gboard g" "Some s"] assms
  by (auto simp: check_end_def Let_def)

lemma click_ignored:
  assumes "mode g \<noteq> ''playing'' \<or> hit = None
     \<or> (\<exists>idx. hit = Some idx \<and> (\<not> (0 \<le> idx \<and> idx < 9)
            \<or> (nat idx < length (cells (gboard g)) \<and> cells (gboard g) ! nat idx \<noteq> None)))"
  shows "handle_click_board now hit g = Inr g"
  using assms by (auto simp: handle_click_board_def getitem_def split: option.splits)

lemma click_places:
  assumes "mode g = ''playing''" "0 \<le> idx" "idx < 9" "length (cells (gboard g)) = 9"
    "cells (gboard g) ! nat idx = None"
  shows "handle_click_board now (Some idx) g =
     (case check_end (g\<lparr>gboard := (gboard g)\<lparr>cells := (cells (gboard g))[nat idx := Some (current_player g)],
                                              anim := (anim (gboard g))(nat idx \<mapsto> now)\<rparr>,
                        last_move_time := now\<rparr>) of
        Inl e \<Rightarrow> Inl e
      | Inr g' \<Rightarrow>
          if mode g' \<noteq> ''gameover'' then
            (if vs_ai g' then Inr (g'\<lparr>current_player := PLAYER_O, ai_delay_until := now + 340\<rparr>)
             else Inr (g'\<lparr>current_player :=
                            (if current_player g' = PLAYER_X then PLAYER_O else PLAYER_X)\<rparr>))
          else Inr g')"
proof -
  from assms(2,3) have "nat idx < 9" by arith
  with assms show ?thesis by (simp add: handle_click_board_def place_def getitem_def)
qed

lemma ai_turn_ignored:
  assumes "\<not> vs_ai g \<or> mode g \<noteq> ''playing'' \<or> current_player g \<noteq> PLAYER_O"
  shows "ai_turn now rnd_lt k g = Inr g"
  using assms by (auto simp: ai_turn_def)

lemma ai_turn_places:
  assumes "vs_ai g" "mode g = ''playing''" "current_player g = PLAYER_O" "ai_delay_until g \<le> now"
    "best_move (gai g) rnd_lt k (cells (gboard g)) = Inr (Some m)" "m < 9"
    "length (cells (gboard g)) = 9" "cells (gboard g) ! m = None"
  shows "ai_turn now rnd_lt k g =
     (case check_end (g\<lparr>gboard := (gboard g)\<lparr>cells := (cells (gboard g))[m := Some PLAYER_O],
                                              anim := (anim (gboard g))(m \<mapsto> now)\<rparr>,
                        last_move_time := now\<rparr>) of
        Inl e \<Rightarrow> Inl e
      | Inr g' \<Rightarrow> if mode g' \<noteq> ''gameover'' then Inr (g'\<lparr>current_player := PLAYER_X\<rparr>) else Inr g')"
  using assms by (simp add: ai_turn_def place_def getitem_def)

section \<open>The engine at Impossible difficulty never loses\<close>

lemma safe_not_lost:
  assumes "safe a n h bd" "check_winner bd = Inr (Some s)" "ai_mark a \<noteq> human_mark a"
  shows "s \<noteq> human_mark a"
  using assms by (cases n) (auto split: if_splits)

lemma winner_mark:
  assumes "valid_board a bd" "check_winner bd = Inr (Some s)"
  shows "s = ai_mark a \<or> s = human_mark a \<or> s = ''Draw''"
  using check_winner_cases [OF assms(2)] valid_board_cell [OF assms(1), of "Some s"] by auto

lemma round_over: "over_not_lost g \<Longrightarrow> game_round ev g = Inr g"
proof -
  assume "over_not_lost g"
  then have m: "mode g \<noteq> ''playing''" by (simp add: over_not_lost_def)
  obtain now hit wait rnd_lt k where ev: "ev = (now, hit, wait, rnd_lt, k)" by (cases ev)
  from m have "handle_click_board now hit g = Inr g" by (simp add: click_ignored)
  moreover from m have "ai_turn (now + 340 + int wait) rnd_lt k g = Inr g"
    by (simp add: ai_turn_ignored)
  ultimately show ?thesis by (simp add: game_round_def ev)
qed

lemma finish_not_lost:
  assumes v: "valid_board (AI_init PLAYER_O PLAYER_X ''Impossible'') (cells (gboard g))"
    and s: "safe (AI_init PLAYER_O PLAYER_X ''Impossible'') 9 h (cells (gboard g))"
    and w: "check_winner (cells (gboard g)) = Inr (Some s)"
    and p: "score_Player g = 0"
  shows "\<exists>g'. check_end g = Inr g' \<and> over_not_lost g'"
proof -
  let ?a = "AI_init PLAYER_O PLAYER_X ''Impossible''"
  have marks: "ai_mark ?a = PLAYER_O" "human_mark ?a = PLAYER_X" "PLAYER_O \<noteq> PLAYER_X"
    by (simp_all add: AI_init_def PLAYER_O_def PLAYER_X_def)
  from safe_not_lost [OF s w] marks have nx: "s \<noteq> PLAYER_X" by simp
  from winner_mark [OF v w] marks nx have so: "s = PLAYER_O \<or> s = ''Draw''" by simp
  from check_end_over [OF w nx] obtain g' where
    g': "check_end g = Inr g'" "mode g' = ''gameover''" "gwinner g' = Some s"
      "score_Player g' = score_Player g" "cells (gboard g') = cells (gboard g)" by blast
  with so w p have "over_not_lost g'" by (auto simp: over_not_lost_def)
  with g'(1) show ?thesis by blast
qed

lemma round_in_play:
  assumes inv: "in_play_safe g"
  shows "\<exists>g'. game_round ev g = Inr g' \<and> (in_play_safe g' \<or> over_not_lost g')"
proof -
  let ?a = "AI_init PLAYER_O PLAYER_X ''Impossible''"
  let ?bd = "cells (gboard g)"
  have marks: "ai_mark ?a = PLAYER_O" "human_mark ?a = PLAYER_X" "PLAYER_O \<noteq> PLAYER_X"
      "difficulty ?a \<noteq> ''Easy''" "difficulty ?a \<noteq> ''Medium''"
    by (simp_all add: AI_init_def PLAYER_O_def PLAYER_X_def)
  from inv have g: "vs_ai g" "gai g = ?a" "score_Player g = 0" "mode g = ''playing''"
      "current_player g = PLAYER_X" "gwinner g = None" "valid_board ?a ?bd"
      "check_winner ?bd = Inr None" "safe ?a 9 True ?bd"
    by (auto simp add: in_play_safe_def)
  note len = valid_board_length [OF g(7)]
  obtain now hit wait rnd_lt k where ev: "ev = (now, hit, wait, rnd_lt, k)" by (cases ev)
  show ?thesis
  proof (cases "\<exists>idx. hit = Some idx \<and> 0 \<le> idx \<and> idx < 9 \<and> ?bd ! nat idx = None")
    case False
    have "handle_click_board now hit g = Inr g"
    proof (rule click_ignored)
      show "mode g \<noteq> ''playing'' \<or> hit = None
        \<or> (\<exists>idx. hit = Some idx \<and> (\<not> (0 \<le> idx \<and> idx < 9)
            \<or> (nat idx < length ?bd \<and> ?bd ! nat idx \<noteq> None)))"
        using False len by (cases hit) auto
    qed
    moreover have "ai_turn (now + 340 + int wait) rnd_lt k g = Inr g"
      using g(5) marks(3) by (simp add: ai_turn_ignored)
    ultimately have "game_round ev g = Inr g" by (simp add: game_round_def ev)
    with inv show ?thesis by simp
  next
    case True
    then obtain idx where idx: "hit = Some idx" "0 \<le> idx" "idx < 9" "?bd ! nat idx = None"
      by blast
    then have i: "nat idx < 9" by arith
    let ?bd1 = "?bd[nat idx := Some PLAYER_X]"
    let ?g1 = "g\<lparr>gboard := (gboard g)\<lparr>cells := ?bd[nat idx := Some (current_player g)],
                                         anim := (anim (gboard g))(nat idx \<mapsto> now)\<rparr>,
                   last_move_time := now\<rparr>"
    have c1: "cells (gboard ?g1) = ?bd1" using g(5) by simp
    note click = click_places [OF g(4) idx(2,3) len idx(4), of now]
    from human_step [OF g(7,8,9) i idx(4)] marks have s1: "safe ?a 9 False ?bd1" by simp
    have v1: "valid_board ?a ?bd1" using g(7) by (rule valid_board_update) (simp add: marks)
    note len1 = valid_board_length [OF v1]
    from check_winner_total [OF len1] obtain w1 where w1: "check_winner ?bd1 = Inr w1" ..
    show ?thesis
    proof (cases w1)
      case (Some s)
      from finish_not_lost [of ?g1 False s] v1 s1 w1 Some c1 g(3)
      obtain g' where g': "check_end ?g1 = Inr g'" "over_not_lost g'" by auto
      then have m: "mode g' = ''gameover''" by (simp add: over_not_lost_def)
      from click g'(1) m idx(1) have "handle_click_board now hit g = Inr g'" by simp
      moreover from m have "ai_turn (now + 340 + int wait) rnd_lt k g' = Inr g'"
        by (simp add: ai_turn_ignored)
      ultimately have "game_round ev g = Inr g'" by (simp add: game_round_def ev)
      with g'(2) show ?thesis by blast
    next
      case None
      with w1 c1 have "check_end ?g1 = Inr ?g1" by (simp add: check_end_in_play)
      with click g(1,4) idx(1)
      have h: "handle_click_board now hit g
          = Inr (?g1\<lparr>current_player := PLAYER_O, ai_delay_until := now + 340\<rparr>)"
        by simp
      let ?g2 = "?g1\<lparr>current_player := PLAYER_O, ai_delay_until := now + 340\<rparr>"
      have c2: "cells (gboard ?g2) = ?bd1" using g(5) by simp
      from engine_step [OF v1 _ s1 marks(4,5), of rnd_lt k] w1 None
      obtain m where m: "best_move ?a rnd_lt k ?bd1 = Inr (Some m)" "m < 9" "?bd1 ! m = None"
          "safe ?a 9 True (?bd1[m := Some PLAYER_O])"
        using marks by auto
      let ?bd2 = "?bd1[m := Some PLAYER_O]"
      let ?g3 = "?g2\<lparr>gboard := (gboard ?g2)\<lparr>cells := (cells (gboard ?g2))[m := Some PLAYER_O],
                                               anim := (anim (gboard ?g2))(m \<mapsto> now + 340 + int wait)\<rparr>,
                      last_move_time := now + 340 + int wait\<rparr>"
      have c3: "cells (gboard ?g3) = ?bd2" using g(5) by simp
      have turn: "ai_turn (now + 340 + int wait) rnd_lt k ?g2 =
         (case check_end ?g3 of
            Inl e \<Rightarrow> Inl e
          | Inr g' \<Rightarrow> if mode g' \<noteq> ''gameover'' then Inr (g'\<lparr>current_player := PLAYER_X\<rparr>) else Inr g')"
      proof (rule ai_turn_places [of ?g2 "now + 340 + int wait" rnd_lt k m])
        show "vs_ai ?g2" using g(1) by simp
        show "mode ?g2 = ''playing''" using g(4) by simp
        show "current_player ?g2 = PLAYER_O" by simp
        show "ai_delay_until ?g2 \<le> now + 340 + int wait" by simp
        show "best_move (gai ?g2) rnd_lt k (cells (gboard ?g2)) = Inr (Some m)"
          using m(1) g(2,5) by simp
        show "m < 9" by (rule m(2))
        show "length (cells (gboard ?g2)) = 9" using len by simp
        show "cells (gboard ?g2) ! m = None" using m(3) g(5) by simp
      qed
      have v2: "valid_board ?a ?bd2" using v1 by (rule valid_board_update) (simp add: marks)
      note len2 = valid_board_length [OF v2]
      from check_winner_total [OF len2] obtain w2 where w2: "check_winner ?bd2 = Inr w2" ..
      show ?thesis
      proof (cases w2)
        case (Some s)
        from finish_not_lost [of ?g3 True s] v2 m(4) w2 Some c3 g(3)
        obtain g' where g': "check_end ?g3 = Inr g'" "over_not_lost g'" by auto
        then have md: "mode g' = ''gameover''" by (simp add: over_not_lost_def)
        from turn g'(1) md have "ai_turn (now + 340 + int wait) rnd_lt k ?g2 = Inr g'" by simp
        with h have "game_round ev g = Inr g'" by (simp add: game_round_def ev)
        with g'(2) show ?thesis by blast
      next
        case N: None
        with w2 c3 have "check_end ?g3 = Inr ?g3" by (simp add: check_end_in_play)
        with turn g(4) have t: "ai_turn (now + 340 + int wait) rnd_lt k ?g2
            = Inr (?g3\<lparr>current_player := PLAYER_X\<rparr>)" by simp
        with h have r: "game_round ev g = Inr (?g3\<lparr>current_player := PLAYER_X\<rparr>)"
          by (simp add: game_round_def ev)
        have "in_play_safe (?g3\<lparr>current_player := PLAYER_X\<rparr>)"
          using g v2 w2 N m(4) by (simp add: in_play_safe_def)
        with r show ?thesis by blast
      qed
    qed
  qed
qed

lemma play_keeps_safe:
  "in_play_safe g \<or> over_not_lost g \<Longrightarrow>
   \<exists>g'. play evs g = Inr g' \<and> (in_play_safe g' \<or> over_not_lost g')"
proof (induction evs arbitrary: g)
  case Nil
  then show ?case by simp
next
  case (Cons ev evs)
  from Cons.prems round_in_play [of g ev] round_over [of g ev]
  obtain g1 where g1: "game_round ev g = Inr g1" "in_play_safe g1 \<or> over_not_lost g1" by blast
  from Cons.IH [OF g1(2)] g1(1) show ?case by simp
qed

lemma start_board: "cells (gboard (set_pvai Game_init)) = replicate 9 None"
  by (simp add: set_pvai_def reset_game_def game_over_reset_def reset_def Game_init_def)

lemma safe_start: "safe (AI_init PLAYER_O PLAYER_X ''Impossible'') 9 True (replicate 9 None)"
  by code_simp

lemma start_in_play_safe: "in_play_safe (set_pvai Game_init)"
proof -
  have 1: "check_winner (replicate 9 None) = Inr None" by code_simp
  have 2: "valid_board (AI_init PLAYER_O PLAYER_X ''Impossible'') (replicate 9 None)"
    by code_simp
  have 3: "vs_ai (set_pvai Game_init)" "gai (set_pvai Game_init) = AI_init PLAYER_O PLAYER_X ''Impossible''"
    "score_Player (set_pvai Game_init) = 0" "mode (set_pvai Game_init) = ''playing''"
    "current_player (set_pvai Game_init) = PLAYER_X" "gwinner (set_pvai Game_init) = None"
    by (simp_all add: set_pvai_def reset_game_def game_over_reset_def reset_def Game_init_def)
  from 1 2 3 safe_start show ?thesis by (simp add: in_play_safe_def start_board)
qed

text \<open>
  C2. In a game against the engine at Impossible difficulty that starts on the empty board
  with the player (X) moving first and the two sides moving in turn, whatever the player
  clicks, the rounds run without error and the player never has a completed line: the
  controller never records X as the winner, the player's score stays 0, and a game that is
  over has been won by the engine or drawn.
\<close>

theorem impossible_engine_never_loses:
  "\<exists>g. play evs (set_pvai Game_init) = Inr g
     \<and> check_winner (cells (gboard g)) \<noteq> Inr (Some PLAYER_X)
     \<and> gwinner g \<noteq> Some PLAYER_X \<and> score_Player g = 0
     \<and> (mode g = ''gameover'' \<longrightarrow> gwinner g = Some PLAYER_O \<or> gwinner g = Some ''Draw'')"
proof -
  have ne: "PLAYER_O \<noteq> PLAYER_X" "''Draw'' \<noteq> PLAYER_X" "''playing'' \<noteq> ''gameover''"
    by (simp_all add: PLAYER_O_def PLAYER_X_def)
  from play_keeps_safe [of "set_pvai Game_init" evs] start_in_play_safe
  obtain g where g: "play evs (set_pvai Game_init) = Inr g" "in_play_safe g \<or> over_not_lost g"
    by blast
  from g(2) show ?thesis
  proof
    assume "in_play_safe g"
    with g(1) ne show ?thesis by (auto simp: in_play_safe_def)
  next
    assume "over_not_lost g"
    with g(1) ne show ?thesis by (auto simp: over_not_lost_def)
  qed
qed

theorem impossible_engine_never_loses_witness:
  "\<exists>g. play [(1000, Some 0, 0, False, 0), (2000, Some 1, 0, False, 0), (3000, Some 3, 0, False, 0)]
          (set_pvai Game_init) = Inr g
     \<and> mode g = ''gameover''
     \<and> (gwinner g = Some PLAYER_O \<or> gwinner g = Some ''Draw'')"
proof -
  have "(case play [(1000, Some 0, 0, False, 0), (2000, Some 1, 0, False, 0), (3000, Some 3, 0, False, 0)]
           (set_pvai Game_init) of
      Inl e \<Rightarrow> False
    | Inr g \<Rightarrow> mode g = ''gameover'')"
    by code_simp
  with impossible_engine_never_loses
         [of "[(1000, Some 0, 0, False, 0), (2000, Some 1, 0, False, 0), (3000, Some 3, 0, False, 0)]"]
  show ?thesis by auto
qed

end
